theory Spec2Isabelle
  imports Main "HOL-Library.Sublist"
begin

section \<open>Tables\<close>

text \<open>
  The pipeline of \<^verbatim>\<open>create_balanced_preprocessed_dataset.py\<close> transforms pandas data
  frames. A frame is modelled by its column labels and its rows; a row holds its cells in
  the order of the labels. A cell is what a CSV reader yields (a missing value, a string, a
  whole number) or the token list that \<^verbatim>\<open>preprocess_articles\<close> stores. Numbers are
  whole: the year column comes from \<^verbatim>\<open>.dt.year\<close> and the token count from \<^verbatim>\<open>len\<close>.
\<close>

datatype cell = NaN | S string | I int | L "string list"

record DataFrame =
  columns :: "string list"
  rows :: "cell list list"

datatype py_error = KeyError | ValueError | TypeError

text \<open>
  Reading the cell of row \<open>r\<close> under label \<open>c\<close>. A cell the row does not hold reads as
  missing, as pandas fills it. Whether the label exists at all is checked by \<open>getitem\<close>,
  which raises \<^verbatim>\<open>KeyError\<close> as \<^verbatim>\<open>df[c]\<close> does.
\<close>

definition get :: "string list \<Rightarrow> cell list \<Rightarrow> string \<Rightarrow> cell" where
  "get cols r c = (case map_of (zip cols r) c of Some v \<Rightarrow> v | None \<Rightarrow> NaN)"

definition column :: "DataFrame \<Rightarrow> string \<Rightarrow> cell list" where
  "column df c = map (\<lambda>r. get (columns df) r c) (rows df)"

definition getitem :: "DataFrame \<Rightarrow> string \<Rightarrow> py_error + cell list" where
  "getitem df c = (if c \<in> set (columns df) then Inr (column df c) else Inl KeyError)"

text \<open>\<^verbatim>\<open>len(df)\<close> is the number of rows.\<close>

definition len :: "DataFrame \<Rightarrow> nat" where
  "len df = length (rows df)"

text \<open>
  An elementwise operation that can raise yields the values in order, or the first error.
\<close>

fun collect :: "(py_error + 'a) list \<Rightarrow> py_error + 'a list" where
  "collect [] = Inr []"
| "collect (x # xs) =
     (case x of
        Inl e \<Rightarrow> Inl e
      | Inr v \<Rightarrow> (case collect xs of Inl e \<Rightarrow> Inl e | Inr vs \<Rightarrow> Inr (v # vs)))"

text \<open>\<^verbatim>\<open>df[mask]\<close>: the rows whose mask entry is true, labels unchanged.\<close>

definition select_rows :: "DataFrame \<Rightarrow> bool list \<Rightarrow> DataFrame" where
  "select_rows df keep = df\<lparr>rows := map fst (filter snd (zip (rows df) keep))\<rparr>"

section \<open>Content filter\<close>

text \<open>
  \<^verbatim>\<open>df['token_count'] >= min_tokens\<close>, cell by cell: a number compares, a missing value
  compares false, a string or a list raises \<^verbatim>\<open>TypeError\<close>.
\<close>

fun cell_ge :: "cell \<Rightarrow> int \<Rightarrow> py_error + bool" where
  "cell_ge (I n) m = Inr (m \<le> n)"
| "cell_ge NaN m = Inr False"
| "cell_ge (S s) m = Inl TypeError"
| "cell_ge (L xs) m = Inl TypeError"

definition MIN_TOKENS :: int where
  "MIN_TOKENS = 20"

text \<open>
  \<^verbatim>\<open>filter_short_articles\<close> (lines 258 to 277). The printed report reads the frames and
  changes nothing; it is left out.
\<close>

definition filter_short_articles :: "DataFrame \<Rightarrow> int \<Rightarrow> py_error + DataFrame" where
  "filter_short_articles df min_tokens =
     (case getitem df ''token_count'' of
        Inl e \<Rightarrow> Inl e
      | Inr col \<Rightarrow>
          (case collect (map (\<lambda>v. cell_ge v min_tokens) col) of
             Inl e \<Rightarrow> Inl e
           | Inr keep \<Rightarrow> Inr (select_rows df keep)))"

section \<open>Deduplicator\<close>

text \<open>
  \<^verbatim>\<open>drop_duplicates(subset=[c], keep='first')\<close> walks the rows in order and keeps a row
  when the value under \<open>c\<close> has not been met before. pandas is not part of the repository;
  this is its documented behaviour: values are compared after hashing, where a missing
  value is one value like any other (two missing values are duplicates of each other), and
  a list cannot be hashed, which raises \<^verbatim>\<open>TypeError\<close>.
\<close>

fun keep_first :: "('a \<Rightarrow> 'k) \<Rightarrow> 'k list \<Rightarrow> 'a list \<Rightarrow> 'a list" where
  "keep_first key seen [] = []"
| "keep_first key seen (x # xs) =
     (if key x \<in> set seen then keep_first key seen xs
      else x # keep_first key (key x # seen) xs)"

fun hashable :: "cell \<Rightarrow> py_error + cell" where
  "hashable (L xs) = Inl TypeError"
| "hashable v = Inr v"

definition drop_duplicates :: "string \<Rightarrow> DataFrame \<Rightarrow> py_error + DataFrame" where
  "drop_duplicates c df =
     (case getitem df c of
        Inl e \<Rightarrow> Inl e
      | Inr col \<Rightarrow>
          (case collect (map hashable col) of
             Inl e \<Rightarrow> Inl e
           | Inr keys \<Rightarrow>
               Inr (df\<lparr>rows := keep_first (\<lambda>r. get (columns df) r c) [] (rows df)\<rparr>)))"

text \<open>
  The deduplication stage of \<^verbatim>\<open>main\<close> (lines 354 to 358): duplicates are dropped by
  \<^verbatim>\<open>url\<close> when the frame has that column, and the frame is left alone otherwise.
\<close>

definition dedup_stage :: "DataFrame \<Rightarrow> py_error + DataFrame" where
  "dedup_stage combined_df =
     (if ''url'' \<in> set (columns combined_df) then drop_duplicates ''url'' combined_df
      else Inr combined_df)"

text \<open>The \<^verbatim>\<open>url\<close> of a row of a frame.\<close>

definition url :: "DataFrame \<Rightarrow> cell list \<Rightarrow> cell" where
  "url df r = get (columns df) r ''url''"

section \<open>Balanced sampler\<close>

text \<open>
  numpy's random generator is not part of the repository and is taken as a parameter:
  \<open>RandomState np seed\<close> is the generator state that a seed produces, and
  \<open>choice np g N n\<close> are the \<open>n\<close> positions that a generator in state \<open>g\<close> draws from
  \<open>N\<close> positions without replacement. The type \<open>'g\<close> of generator states is left open.
\<close>

record 'g numpy =
  RandomState :: "int \<Rightarrow> 'g"
  choice :: "'g \<Rightarrow> nat \<Rightarrow> nat \<Rightarrow> nat list"

text \<open>
  What numpy guarantees of a draw without replacement: as many positions as asked for,
  each within the population, none twice.
\<close>

definition draws_without_replacement :: "'g numpy \<Rightarrow> bool" where
  "draws_without_replacement np =
     (\<forall>g N n. n \<le> N \<longrightarrow>
        length (choice np g N n) = n \<and> distinct (choice np g N n) \<and>
        (\<forall>i \<in> set (choice np g N n). i < N))"

text \<open>
  \<^verbatim>\<open>df.sample(n=n, random_state=seed)\<close>: pandas builds a fresh generator from the seed,
  draws \<open>n\<close> row positions from it and returns those rows; it raises \<^verbatim>\<open>ValueError\<close>
  when asked for more rows than the frame has.
\<close>

definition sample :: "'g numpy \<Rightarrow> DataFrame \<Rightarrow> nat \<Rightarrow> int \<Rightarrow> py_error + DataFrame" where
  "sample np df n random_state =
     (if len df < n then Inl ValueError
      else Inr (df\<lparr>rows := map (\<lambda>i. rows df ! i)
                  (choice np (RandomState np random_state) (len df) n)\<rparr>))"

text \<open>\<^verbatim>\<open>df[df[c] == v]\<close>: the rows whose cell under \<open>c\<close> is \<open>v\<close>.\<close>

definition where_eq :: "DataFrame \<Rightarrow> string \<Rightarrow> cell \<Rightarrow> py_error + DataFrame" where
  "where_eq df c v =
     (case getitem df c of
        Inl e \<Rightarrow> Inl e
      | Inr col \<Rightarrow> Inr (select_rows df (map (\<lambda>x. x = v) col)))"

text \<open>
  \<^verbatim>\<open>pd.concat(frames, ignore_index=True)\<close>: the labels of all frames in order of first
  appearance, every row laid out under them with missing cells where its frame had no
  such label. An empty list of frames raises \<^verbatim>\<open>ValueError\<close>.
\<close>

definition reindex :: "string list \<Rightarrow> DataFrame \<Rightarrow> cell list list" where
  "reindex cols df = map (\<lambda>r. map (get (columns df) r) cols) (rows df)"

definition pd_concat :: "DataFrame list \<Rightarrow> py_error + DataFrame" where
  "pd_concat dfs =
     (if dfs = [] then Inl ValueError
      else let cols = keep_first id [] (concat (map columns dfs))
           in Inr \<lparr>columns = cols, rows = concat (map (reindex cols) dfs)\<rparr>)"

text \<open>
  The years of the loop (lines 292 and 293): the distinct years of the column that are not
  missing, ascending, restricted to 2017 to 2024. A string or a list in the column makes
  the sort or the comparison raise \<^verbatim>\<open>TypeError\<close>.
\<close>

fun year_cell :: "cell \<Rightarrow> py_error + int list" where
  "year_cell (I y) = Inr [y]"
| "year_cell NaN = Inr []"
| "year_cell (S s) = Inl TypeError"
| "year_cell (L xs) = Inl TypeError"

definition available_years :: "cell list \<Rightarrow> py_error + int list" where
  "available_years col =
     (case collect (map year_cell col) of
        Inl e \<Rightarrow> Inl e
      | Inr ys \<Rightarrow> Inr (filter (\<lambda>y. 2017 \<le> y \<and> y \<le> 2024) (sort (remdups (concat ys)))))"

text \<open>
  The loop over the years (lines 298 to 315), returning the list \<^verbatim>\<open>balanced_samples\<close>.
\<close>

fun sampling_loop ::
  "'g numpy \<Rightarrow> int \<Rightarrow> DataFrame \<Rightarrow> DataFrame \<Rightarrow> int list \<Rightarrow> py_error + DataFrame list" where
  "sampling_loop np random_state chinese_df western_df [] = Inr []"
| "sampling_loop np random_state chinese_df western_df (year # years) =
     (case where_eq chinese_df ''year'' (I year) of
        Inl e \<Rightarrow> Inl e
      | Inr chinese_year \<Rightarrow>
     (case where_eq western_df ''year'' (I year) of
        Inl e \<Rightarrow> Inl e
      | Inr western_year \<Rightarrow>
     (let n_chinese = len chinese_year;
          n_western = len western_year;
          n_sample = min n_chinese n_western
      in if n_sample > 0 then
           (case sample np chinese_year n_sample random_state of
              Inl e \<Rightarrow> Inl e
            | Inr chinese_sample \<Rightarrow>
           (case sample np western_year n_sample random_state of
              Inl e \<Rightarrow> Inl e
            | Inr western_sample \<Rightarrow>
           (case sampling_loop np random_state chinese_df western_df years of
              Inl e \<Rightarrow> Inl e
            | Inr balanced_samples \<Rightarrow>
                Inr (chinese_sample # western_sample # balanced_samples))))
         else sampling_loop np random_state chinese_df western_df years)))"

text \<open>
  \<^verbatim>\<open>create_balanced_dataset\<close> (lines 279 to 323). The first component of the result is the
  state of numpy's global generator after the call: \<^verbatim>\<open>np.random.seed(random_state)\<close>
  overwrites the state \<open>g\<close> the function was entered with. The second component is the
  balanced frame, or the exception that ended the call.
\<close>

definition create_balanced_dataset ::
  "'g numpy \<Rightarrow> 'g \<Rightarrow> DataFrame \<Rightarrow> int \<Rightarrow> 'g \<times> (py_error + DataFrame)" where
  "create_balanced_dataset np g df random_state =
     (RandomState np random_state,
      case where_eq df ''source_category'' (S ''Chinese State Media'') of
        Inl e \<Rightarrow> Inl e
      | Inr chinese_df \<Rightarrow>
     (case where_eq df ''source_category'' (S ''Western Media'') of
        Inl e \<Rightarrow> Inl e
      | Inr western_df \<Rightarrow>
     (case getitem df ''year'' of
        Inl e \<Rightarrow> Inl e
      | Inr year_col \<Rightarrow>
     (case available_years year_col of
        Inl e \<Rightarrow> Inl e
      | Inr years \<Rightarrow>
     (case sampling_loop np random_state chinese_df western_df years of
        Inl e \<Rightarrow> Inl e
      | Inr balanced_samples \<Rightarrow> pd_concat balanced_samples)))))"

text \<open>The number of records of a frame with a given source category and year.\<close>

definition count_records :: "DataFrame \<Rightarrow> string \<Rightarrow> int \<Rightarrow> nat" where
  "count_records df cat y =
     length (filter (\<lambda>r. get (columns df) r ''source_category'' = S cat \<and>
                          get (columns df) r ''year'' = I y) (rows df))"

text \<open>
  A generator to run the model on examples: the state is the magnitude of the seed, and a
  draw takes the first positions of the population rotated by the state.
\<close>

definition rotating :: "nat numpy" where
  "rotating =
     \<lparr>RandomState = (\<lambda>seed. nat \<bar>seed\<bar>), choice = (\<lambda>g N n. take n (rotate g [0..<N]))\<rparr>"

section \<open>Schema standardizer\<close>

text \<open>
  The dictionary \<^verbatim>\<open>column_mapping\<close> of \<^verbatim>\<open>standardize_columns\<close> (lines 186 to 202), in the
  order of the source, which is the order in which Python walks it.
\<close>

definition column_mapping :: "(string \<times> string) list" where
  "column_mapping =
     [(''title'', ''headline''),
      (''Title'', ''headline''),
      (''headline'', ''headline''),
      (''Headline'', ''headline''),
      (''body'', ''body_text''),
      (''Body'', ''body_text''),
      (''body_text'', ''body_text''),
      (''text'', ''body_text''),
      (''content'', ''body_text''),
      (''article_text'', ''body_text''),
      (''date'', ''publication_date''),
      (''Date'', ''publication_date''),
      (''publication_date'', ''publication_date''),
      (''pub_date'', ''publication_date''),
      (''seendate'', ''publication_date'')]"

text \<open>
  \<^verbatim>\<open>df.rename(columns={old_name: new_name})\<close> relabels the column and leaves the cells
  where they are.
\<close>

definition rename :: "string \<Rightarrow> string \<Rightarrow> DataFrame \<Rightarrow> DataFrame" where
  "rename old_name new_name df =
     df\<lparr>columns := map (\<lambda>c. if c = old_name then new_name else c) (columns df)\<rparr>"

fun rename_loop :: "(string \<times> string) list \<Rightarrow> DataFrame \<Rightarrow> DataFrame" where
  "rename_loop [] df = df"
| "rename_loop ((old_name, new_name) # items) df =
     rename_loop items
       (if old_name \<in> set (columns df) \<and> new_name \<notin> set (columns df)
        then rename old_name new_name df else df)"

definition standardize_columns :: "DataFrame \<Rightarrow> DataFrame" where
  "standardize_columns df = rename_loop column_mapping df"

text \<open>
  The words of the spec, read off the dictionary: the canonical fields are the values of
  the dictionary, the aliases of a canonical field are the other names mapped to it, in
  the order of the dictionary, and the alias that counts is the first one the record has.
\<close>

definition canonical_fields :: "string list" where
  "canonical_fields = remdups (map snd column_mapping)"

definition aliases :: "string \<Rightarrow> string list" where
  "aliases c = map fst (filter (\<lambda>(a, c'). c' = c \<and> a \<noteq> c) column_mapping)"

definition first_present :: "string list \<Rightarrow> string list \<Rightarrow> string option" where
  "first_present cols as = find (\<lambda>a. a \<in> set cols) as"

text \<open>
  What the loop does with one canonical field \<open>c\<close>: nothing when the frame has it, and
  otherwise the first alias the frame has is relabelled \<open>c\<close>.
\<close>

definition promote :: "string \<Rightarrow> string list \<Rightarrow> DataFrame \<Rightarrow> DataFrame" where
  "promote c as df =
     (if c \<in> set (columns df) then df
      else case first_present (columns df) as of
             None \<Rightarrow> df
           | Some a \<Rightarrow> rename a c df)"

text \<open>No name belongs to two of the canonical fields of a list, as field or as alias.\<close>

fun apart :: "(string \<times> string list) list \<Rightarrow> bool" where
  "apart [] = True"
| "apart ((c, as) # gs) =
     ((\<forall>(c', as') \<in> set gs. \<forall>x \<in> set (c # as). x \<noteq> c' \<and> x \<notin> set as') \<and> apart gs)"

text \<open>The canonical fields with their aliases.\<close>

definition field_groups :: "(string \<times> string list) list" where
  "field_groups = map (\<lambda>c. (c, aliases c)) canonical_fields"

section \<open>Text normalizer\<close>

text \<open>
  A Python string is modelled as a list of characters. The classes \<^verbatim>\<open>\s\<close> and \<^verbatim>\<open>\w\<close> of
  Python's regular expressions, and the methods \<^verbatim>\<open>strip\<close>, \<^verbatim>\<open>isalpha\<close> and \<^verbatim>\<open>lower\<close> of
  its strings, follow the Unicode character database. On ASCII they are as Python documents
  them: white space is the characters 9 to 13, 28 to 31 and the blank, a word character is
  a letter, a digit or the underscore, and the capital letters have a lower case. Beyond
  ASCII the database is not part of the repository and is taken as a parameter, which says
  of a character whether it is white space, alphanumeric or alphabetic, and what its lower
  case is.
\<close>

record unicodedata =
  whitespace :: "char \<Rightarrow> bool"
  alphanumeric :: "char \<Rightarrow> bool"
  alphabetic :: "char \<Rightarrow> bool"
  lowercase :: "char \<Rightarrow> char"

definition is_ascii :: "char \<Rightarrow> bool" where
  "is_ascii c = ((of_char c :: nat) < 128)"

definition is_space :: "unicodedata \<Rightarrow> char \<Rightarrow> bool" where
  "is_space ud c =
     (if is_ascii c then of_char c \<in> {9, 10, 11, 12, 13, 28, 29, 30, 31, 32 :: nat}
      else whitespace ud c)"

definition is_word :: "unicodedata \<Rightarrow> char \<Rightarrow> bool" where
  "is_word ud c =
     (if is_ascii c then
        (let n = of_char c :: nat
         in (48 \<le> n \<and> n \<le> 57) \<or> (65 \<le> n \<and> n \<le> 90) \<or> n = 95 \<or> (97 \<le> n \<and> n \<le> 122))
      else alphanumeric ud c)"

text \<open>
  The database on the characters 128 to 255, to run the model on examples: two more
  characters of white space, the line break 133 and the blank 160 that does not break; the
  letters, which are 170, 181, 186 and 192 to 255 without the signs 215 and 247; the
  numbers 178, 179, 185, 188, 189 and 190, alphanumeric but not letters; and the capital
  letters 192 to 222, whose lower case is 32 further on.
\<close>

definition latin1 :: unicodedata where
  "latin1 =
     \<lparr>whitespace = (\<lambda>c. of_char c \<in> {133, 160 :: nat}),
      alphanumeric = (\<lambda>c. let n = of_char c :: nat
                          in n \<in> {170, 178, 179, 181, 185, 186, 188, 189, 190} \<or>
                             (192 \<le> n \<and> n \<noteq> 215 \<and> n \<noteq> 247)),
      alphabetic = (\<lambda>c. let n = of_char c :: nat
                        in n \<in> {170, 181, 186} \<or> (192 \<le> n \<and> n \<noteq> 215 \<and> n \<noteq> 247)),
      lowercase = (\<lambda>c. let n = of_char c :: nat
                       in if 192 \<le> n \<and> n \<le> 222 \<and> n \<noteq> 215 then char_of (n + 32) else c)\<rparr>"

subsection \<open>Regular expressions\<close>

text \<open>
  Python's \<^verbatim>\<open>re\<close> module is not part of the repository. The patterns of \<^verbatim>\<open>clean_text\<close>
  use single characters, character classes, the greedy repetition \<^verbatim>\<open>+\<close> of a class,
  sequence and alternation; a pattern is a list of alternatives, each a sequence of atoms.

  Matching follows the backtracking of \<^verbatim>\<open>re\<close>: \<open>match_atom a s\<close> lists what is left of
  \<open>s\<close> after each way of matching \<open>a\<close> at its start, in the order in which Python tries
  them. A repetition tries the longest run first and gives characters back one by one;
  alternatives are tried from left to right. The first entry is the match that counts.
\<close>

datatype atom = Chr char | Class "char \<Rightarrow> bool" | Plus "char \<Rightarrow> bool"

type_synonym pattern = "atom list list"

fun match_atom :: "atom \<Rightarrow> string \<Rightarrow> string list" where
  "match_atom (Chr c) [] = []"
| "match_atom (Chr c) (x # xs) = (if x = c then [xs] else [])"
| "match_atom (Class P) [] = []"
| "match_atom (Class P) (x # xs) = (if P x then [xs] else [])"
| "match_atom (Plus P) s = map (\<lambda>k. drop k s) (rev [1..<Suc (length (takeWhile P s))])"

fun match_seq :: "atom list \<Rightarrow> string \<Rightarrow> string list" where
  "match_seq [] s = [s]"
| "match_seq (a # as) s = concat (map (match_seq as) (match_atom a s))"

definition first_match :: "pattern \<Rightarrow> string \<Rightarrow> string option" where
  "first_match p s =
     (case concat (map (\<lambda>alt. match_seq alt s) p) of
        [] \<Rightarrow> None
      | rest # _ \<Rightarrow> Some rest)"

text \<open>
  \<^verbatim>\<open>re.sub(pattern, repl, text)\<close> scans the text from the left. Where the pattern
  matches, the match is replaced and the scan goes on behind it; elsewhere the character
  is copied. A match of no characters is replaced as well, and the scan moves on by one
  character.
\<close>

function re_sub :: "pattern \<Rightarrow> string \<Rightarrow> string \<Rightarrow> string" where
  "re_sub p repl [] = (case first_match p [] of None \<Rightarrow> [] | Some rest \<Rightarrow> repl)"
| "re_sub p repl (c # cs) =
     (case first_match p (c # cs) of
        None \<Rightarrow> c # re_sub p repl cs
      | Some rest \<Rightarrow>
          if length rest < length (c # cs) then repl @ re_sub p repl rest
          else repl @ c # re_sub p repl cs)"
  by pat_completeness auto
termination
  by (relation "measure (\<lambda>(p, repl, s). length s)") auto

text \<open>\<^verbatim>\<open>str.strip()\<close> removes the white space at both ends.\<close>

definition strip :: "unicodedata \<Rightarrow> string \<Rightarrow> string" where
  "strip ud s = rev (dropWhile (is_space ud) (rev (dropWhile (is_space ud) s)))"

subsection \<open>Cleaning\<close>

text \<open>The four patterns of \<^verbatim>\<open>clean_text\<close> (lines 47 to 53).\<close>

definition url_pattern :: "unicodedata \<Rightarrow> pattern" where
  \<comment> \<open>\<^verbatim>\<open>http\S+|www\S+\<close>\<close>
  "url_pattern ud =
     [[Chr CHR ''h'', Chr CHR ''t'', Chr CHR ''t'', Chr CHR ''p'', Plus (\<lambda>c. \<not> is_space ud c)],
      [Chr CHR ''w'', Chr CHR ''w'', Chr CHR ''w'', Plus (\<lambda>c. \<not> is_space ud c)]]"

definition tag_pattern :: pattern where
  \<comment> \<open>\<^verbatim>\<open><[^>]+>\<close>\<close>
  "tag_pattern = [[Chr CHR ''<'', Plus (\<lambda>c. c \<noteq> CHR ''>''), Chr CHR ''>'']]"

definition allowed :: "unicodedata \<Rightarrow> char \<Rightarrow> bool" where
  "allowed ud c =
     (is_word ud c \<or> is_space ud c \<or>
      c \<in> {CHR ''.'', CHR '','', CHR ''!'', CHR ''?'', CHR 0x27, CHR 0x22, CHR ''-''})"

definition special_pattern :: "unicodedata \<Rightarrow> pattern" where
  \<comment> \<open>\<^verbatim>\<open>[^\w\s\.\,\!\?\'\"\-]\<close>\<close>
  "special_pattern ud = [[Class (\<lambda>c. \<not> allowed ud c)]]"

definition space_pattern :: "unicodedata \<Rightarrow> pattern" where
  \<comment> \<open>\<^verbatim>\<open>\s+\<close>\<close>
  "space_pattern ud = [[Plus (is_space ud)]]"

text \<open>
  \<^verbatim>\<open>clean_text\<close> (lines 41 to 55). The argument is a cell. A missing value or a number
  gives the empty string. For a list, \<^verbatim>\<open>pd.isna\<close> returns an array, and the truth value
  of an array of two or more elements raises \<^verbatim>\<open>ValueError\<close>; a shorter list is not a
  string and gives the empty string.
\<close>

fun clean_text :: "unicodedata \<Rightarrow> cell \<Rightarrow> py_error + string" where
  "clean_text ud (S text) =
     Inr (strip ud (re_sub (space_pattern ud) '' ''
       (re_sub (special_pattern ud) '' ''
         (re_sub tag_pattern []
           (re_sub (url_pattern ud) [] text)))))"
| "clean_text ud NaN = Inr []"
| "clean_text ud (I n) = Inr []"
| "clean_text ud (L xs) = (if 2 \<le> length xs then Inl ValueError else Inr [])"

subsection \<open>The words of the spec\<close>

text \<open>
  A URL-like substring starts with \<^verbatim>\<open>http\<close> or \<^verbatim>\<open>www\<close>, goes on with at least one
  more character that is not white space, and ends before the next white space.
\<close>

definition url_start :: "unicodedata \<Rightarrow> string \<Rightarrow> bool" where
  "url_start ud s =
     ((prefix ''http'' s \<and> 4 < length s \<and> \<not> is_space ud (s ! 4)) \<or>
      (prefix ''www'' s \<and> 3 < length s \<and> \<not> is_space ud (s ! 3)))"

function strip_urls :: "unicodedata \<Rightarrow> string \<Rightarrow> string" where
  "strip_urls ud [] = []"
| "strip_urls ud (c # cs) =
     (if url_start ud (c # cs) then strip_urls ud (dropWhile (\<lambda>x. \<not> is_space ud x) cs)
      else c # strip_urls ud cs)"
  by pat_completeness auto
termination
  by (relation "measure (\<lambda>(ud, s). length s)") (auto simp: le_imp_less_Suc length_dropWhile_le)

text \<open>
  An HTML tag is an opening angle bracket, at least one character that is not a closing
  bracket, and the next closing bracket.
\<close>

function strip_tags :: "string \<Rightarrow> string" where
  "strip_tags [] = []"
| "strip_tags (c # cs) =
     (if c = CHR ''<'' \<and> cs \<noteq> [] \<and> hd cs \<noteq> CHR ''>'' \<and> CHR ''>'' \<in> set cs
      then strip_tags (tl (dropWhile (\<lambda>x. x \<noteq> CHR ''>'') cs))
      else c # strip_tags cs)"
  by pat_completeness auto
termination
proof (relation "measure length")
  show "wf (measure length)" by simp
next
  fix c :: char and cs :: string
  have "length (tl (dropWhile (\<lambda>x. x \<noteq> CHR ''>'') cs)) \<le> length cs"
    using length_dropWhile_le [of "\<lambda>x. x \<noteq> CHR ''>''" cs] by simp
  then show "(tl (dropWhile (\<lambda>x. x \<noteq> CHR ''>'') cs), c # cs) \<in> measure length"
    by simp
next
  fix c :: char and cs :: string
  show "(cs, c # cs) \<in> measure length" by simp
qed

text \<open>A character outside the whitelist becomes a blank.\<close>

definition blank_specials :: "unicodedata \<Rightarrow> string \<Rightarrow> string" where
  "blank_specials ud s = map (\<lambda>c. if allowed ud c then c else CHR '' '') s"

text \<open>A run of white space becomes one blank.\<close>

function collapse_whitespace :: "unicodedata \<Rightarrow> string \<Rightarrow> string" where
  "collapse_whitespace ud [] = []"
| "collapse_whitespace ud (c # cs) =
     (if is_space ud c then CHR '' '' # collapse_whitespace ud (dropWhile (is_space ud) cs)
      else c # collapse_whitespace ud cs)"
  by pat_completeness auto
termination
  by (relation "measure (\<lambda>(ud, s). length s)") (auto simp: le_imp_less_Suc length_dropWhile_le)

text \<open>
  The cleaning as the spec words it, where a character outside the whitelist is removed
  and leaves nothing behind.
\<close>

definition clean_as_specified :: "unicodedata \<Rightarrow> string \<Rightarrow> string" where
  "clean_as_specified ud text =
     strip ud (collapse_whitespace ud (filter (allowed ud) (strip_tags (strip_urls ud text))))"

section \<open>Year extractor\<close>

text \<open>
  \<^verbatim>\<open>df[c] = values\<close>: the column is overwritten when the frame has it and appended
  otherwise; a row without a value gets a missing one.
\<close>

definition assign :: "string \<Rightarrow> cell list \<Rightarrow> DataFrame \<Rightarrow> DataFrame" where
  "assign c values df =
     (let cols = (if c \<in> set (columns df) then columns df else columns df @ [c]);
          padded = values @ replicate (len df - length values) NaN
      in \<lparr>columns = cols,
          rows = map (\<lambda>(r, v). map (\<lambda>c'. if c' = c then v else get (columns df) r c') cols)
                   (zip (rows df) padded)\<rparr>)"

text \<open>
  \<^verbatim>\<open>extract_year\<close> (lines 211 to 226). The date parser of pandas is not part of the
  repository: \<open>to_year col\<close> stands for \<^verbatim>\<open>pd.to_datetime(col, errors='coerce').dt.year\<close>,
  the years of a column with missing values where a date does not parse, or \<open>None\<close> when
  the call raises, which the \<^verbatim>\<open>except\<close> of the loop catches.
\<close>

fun year_from ::
  "(cell list \<Rightarrow> cell list option) \<Rightarrow> string list \<Rightarrow> DataFrame \<Rightarrow> DataFrame" where
  "year_from to_year [] df = df"
| "year_from to_year (date_col # date_cols) df =
     (if date_col \<in> set (columns df) then
        (case to_year (column df date_col) of
           Some years \<Rightarrow> assign ''year'' years df
         | None \<Rightarrow> year_from to_year date_cols df)
      else year_from to_year date_cols df)"

definition extract_year :: "(cell list \<Rightarrow> cell list option) \<Rightarrow> DataFrame \<Rightarrow> DataFrame" where
  "extract_year to_year df =
     (if ''year'' \<in> set (columns df) then df
      else if ''publication_date'' \<in> set (columns df)
      then year_from to_year [''publication_date'', ''seendate'', ''date''] df
      else df)"

section \<open>Tokenizer\<close>

text \<open>
  The tokenizer and the stop words of nltk are not part of the repository and are taken as
  parameters. \<^verbatim>\<open>str.lower\<close> and \<^verbatim>\<open>str.isalpha\<close> go by the character database: on
  ASCII the capital letters A to Z have the lower case a to z and these are the letters.
\<close>

record nltk =
  word_tokenize :: "string \<Rightarrow> string list"
  stopwords_english :: "string list"

definition lower :: "unicodedata \<Rightarrow> string \<Rightarrow> string" where
  "lower ud s =
     map (\<lambda>c. if is_ascii c then
                (if 65 \<le> (of_char c :: nat) \<and> (of_char c :: nat) \<le> 90
                 then char_of (of_char c + 32 :: nat) else c)
              else lowercase ud c) s"

definition isalpha :: "unicodedata \<Rightarrow> string \<Rightarrow> bool" where
  "isalpha ud s =
     (s \<noteq> [] \<and>
      list_all (\<lambda>c. if is_ascii c then
                      (65 \<le> (of_char c :: nat) \<and> (of_char c :: nat) \<le> 90) \<or>
                      (97 \<le> (of_char c :: nat) \<and> (of_char c :: nat) \<le> 122)
                    else alphabetic ud c) s)"

text \<open>\<^verbatim>\<open>tokenize_text\<close> (lines 57 to 75).\<close>

definition tokenize_text :: "unicodedata \<Rightarrow> nltk \<Rightarrow> string \<Rightarrow> string list" where
  "tokenize_text ud nl text =
     (if text = [] then []
      else filter (\<lambda>token. isalpha ud token \<and> token \<notin> set (stopwords_english nl) \<and>
                            2 < length token)
             (word_tokenize nl (lower ud text)))"

text \<open>
  \<^verbatim>\<open>preprocess_articles\<close> (lines 228 to 256). Without a text column the frame is returned
  as it is, with no token count.
\<close>

definition preprocess_articles ::
  "unicodedata \<Rightarrow> nltk \<Rightarrow> DataFrame \<Rightarrow> py_error + DataFrame" where
  "preprocess_articles ud nl df =
     (case find (\<lambda>col. col \<in> set (columns df)) [''body_text'', ''text'', ''content'', ''body''] of
        None \<Rightarrow> Inr df
      | Some text_col \<Rightarrow>
          (case collect (map (clean_text ud) (column df text_col)) of
             Inl e \<Rightarrow> Inl e
           | Inr cleaned \<Rightarrow>
               (let tokens = map (tokenize_text ud nl) cleaned
                in Inr (assign ''token_count'' (map (\<lambda>t. I (int (length t))) tokens)
                         (assign ''tokens'' (map L tokens)
                           (assign ''clean_text'' (map S cleaned) df))))))"

section \<open>Dataset assembler\<close>

text \<open>
  \<^verbatim>\<open>df[df[c].between(lo, hi)]\<close>: a number is compared, a missing value is out of range, a
  string or a list raises \<^verbatim>\<open>TypeError\<close>.
\<close>

fun cell_between :: "int \<Rightarrow> int \<Rightarrow> cell \<Rightarrow> py_error + bool" where
  "cell_between lo hi (I n) = Inr (lo \<le> n \<and> n \<le> hi)"
| "cell_between lo hi NaN = Inr False"
| "cell_between lo hi (S s) = Inl TypeError"
| "cell_between lo hi (L xs) = Inl TypeError"

definition where_between :: "DataFrame \<Rightarrow> string \<Rightarrow> int \<Rightarrow> int \<Rightarrow> py_error + DataFrame" where
  "where_between df c lo hi =
     (case getitem df c of
        Inl e \<Rightarrow> Inl e
      | Inr col \<Rightarrow>
          (case collect (map (cell_between lo hi) col) of
             Inl e \<Rightarrow> Inl e
           | Inr keep \<Rightarrow> Inr (select_rows df keep)))"

text \<open>\<^verbatim>\<open>df[cols]\<close> for labels the frame has.\<close>

definition select_columns :: "string list \<Rightarrow> DataFrame \<Rightarrow> DataFrame" where
  "select_columns cols df = \<lparr>columns = cols, rows = reindex cols df\<rparr>"

definition csv_cols :: "string list" where
  "csv_cols = [''headline'', ''body_text'', ''clean_text'', ''source'', ''source_category'',
               ''publication_date'', ''year'', ''url'', ''token_count'']"

text \<open>
  How a run ends: with the message of line 336 and nothing written, with an exception, or
  with the two artifacts written, the table without tokens and the full frame.
\<close>

datatype outcome = Aborted string | Raised py_error | Saved DataFrame DataFrame

fun artifacts :: "outcome \<Rightarrow> (DataFrame \<times> DataFrame) option" where
  "artifacts (Saved csv pkl) = Some (csv, pkl)"
| "artifacts (Aborted message) = None"
| "artifacts (Raised e) = None"

text \<open>
  \<^verbatim>\<open>main\<close> (lines 325 to 400). Reading the files is outside the model: the two frames
  are what \<^verbatim>\<open>load_chinese_state_media\<close> and \<^verbatim>\<open>load_western_media\<close> returned. The
  result is the state of numpy's global generator when the run ends, which only the sampler
  writes, and how the run ended. The printed reports are left out; those after the files
  are written read columns that exist by then.
\<close>

definition main ::
  "'g numpy \<Rightarrow> (cell list \<Rightarrow> cell list option) \<Rightarrow> unicodedata \<Rightarrow> nltk \<Rightarrow> 'g \<Rightarrow>
   DataFrame \<Rightarrow> DataFrame \<Rightarrow> 'g \<times> outcome"
where
  "main np to_year ud nl g chinese_df western_df =
     (if len chinese_df = 0 \<or> len western_df = 0
      then (g, Aborted (CHR 0x0A # ''ERROR: Could not load data from one or both sources!''))
      else
     (case pd_concat [chinese_df, western_df] of
        Inl e \<Rightarrow> (g, Raised e)
      | Inr combined_df \<Rightarrow>
     (case where_between (extract_year to_year (standardize_columns combined_df))
             ''year'' 2017 2024 of
        Inl e \<Rightarrow> (g, Raised e)
      | Inr ranged_df \<Rightarrow>
     (case dedup_stage ranged_df of
        Inl e \<Rightarrow> (g, Raised e)
      | Inr deduplicated_df \<Rightarrow>
     (case preprocess_articles ud nl deduplicated_df of
        Inl e \<Rightarrow> (g, Raised e)
      | Inr preprocessed_df \<Rightarrow>
     (case filter_short_articles preprocessed_df MIN_TOKENS of
        Inl e \<Rightarrow> (g, Raised e)
      | Inr filtered_df \<Rightarrow>
     (case create_balanced_dataset np g filtered_df 42 of
        (g', Inl e) \<Rightarrow> (g', Raised e)
      | (g', Inr balanced_df) \<Rightarrow>
          (g', Saved (select_columns (filter (\<lambda>c. c \<in> set (columns balanced_df)) csv_cols)
                        balanced_df)
                     balanced_df))))))))"

text \<open>
  A tokenizer to run the model on examples: the words between blanks, with two stop words.
\<close>

function blank_separated :: "string \<Rightarrow> string list" where
  "blank_separated [] = []"
| "blank_separated (c # cs) =
     (if c = CHR '' '' then blank_separated cs
      else takeWhile (\<lambda>x. x \<noteq> CHR '' '') (c # cs) #
           blank_separated (dropWhile (\<lambda>x. x \<noteq> CHR '' '') cs))"
  by pat_completeness auto
termination
  by (relation "measure length") (auto simp: le_imp_less_Suc length_dropWhile_le)

definition plain_nltk :: nltk where
  "plain_nltk = \<lparr>word_tokenize = blank_separated, stopwords_english = [''the'', ''and'']\<rparr>"

text \<open>Three loaded frames with one article of twenty words each.\<close>

definition xinhua_2017 :: DataFrame where
  "xinhua_2017 =
     \<lparr>columns = [''url'', ''headline'', ''body_text'', ''year'', ''source'', ''source_category''],
      rows = [[S ''c1'', S ''Growth'', S (concat (replicate 20 ''yak '')), I 2017,
               S ''Xinhua'', S ''Chinese State Media'']]\<rparr>"

definition guardian_2018 :: DataFrame where
  "guardian_2018 =
     \<lparr>columns = [''url'', ''headline'', ''body_text'', ''year'', ''source'', ''source_category''],
      rows = [[S ''w1'', S ''Protest'', S (concat (replicate 20 ''tea '')), I 2018,
               S ''The Guardian'', S ''Western Media'']]\<rparr>"

definition guardian_2017 :: DataFrame where
  "guardian_2017 =
     \<lparr>columns = [''url'', ''headline'', ''body_text'', ''year'', ''source'', ''source_category''],
      rows = [[S ''w2'', S ''Visit'', S (concat (replicate 20 ''tea '')), I 2017,
               S ''The Guardian'', S ''Western Media'']]\<rparr>"

section \<open>Properties of the content filter\<close>

lemma collect_length: "collect xs = Inr vs \<Longrightarrow> length vs = length xs"
  by (induction xs arbitrary: vs) (auto split: sum.splits)

lemma collect_nth:
  "collect xs = Inr vs \<Longrightarrow> i < length xs \<Longrightarrow> xs ! i = Inr (vs ! i)"
proof (induction xs arbitrary: vs i)
  case Nil
  then show ?case by simp
next
  case (Cons x xs)
  then show ?case by (cases i) (auto split: sum.splits)
qed

lemma collect_total:
  "(\<forall>x \<in> set xs. \<exists>v. x = Inr v) \<Longrightarrow> \<exists>vs. collect xs = Inr vs"
  by (induction xs) (auto split: sum.splits)

lemma select_rows_columns [simp]: "columns (select_rows df keep) = columns df"
  by (simp add: select_rows_def)

lemma select_rows_subseq: "subseq (rows (select_rows df keep)) (rows df)"
proof -
  have "subseq (map fst (filter snd (zip xs ms))) xs" for xs :: "cell list list" and ms
  proof (induction xs arbitrary: ms)
    case Nil
    then show ?case by simp
  next
    case (Cons x xs)
    then show ?case by (cases ms) auto
  qed
  then show ?thesis by (simp add: select_rows_def)
qed

lemma select_rows_mem:
  assumes "r \<in> set (rows (select_rows df keep))"
  shows "\<exists>i. i < length (rows df) \<and> i < length keep \<and> rows df ! i = r \<and> keep ! i"
proof -
  from assms have "(r, True) \<in> set (zip (rows df) keep)"
    by (auto simp: select_rows_def)
  then show ?thesis
    by (auto simp: set_zip)
qed

text \<open>
  Claim C6. For every corpus and every threshold, the content filter returns no more
  records than it was given, and every record that survives has a token count of at least
  the threshold. The filter returns whenever the corpus has a token count column holding
  numbers or missing values; the survivors are records of the input, in their order.
\<close>

theorem filter_short_articles_monotone:
  "(''token_count'' \<in> set (columns df) \<and>
      (\<forall>r \<in> set (rows df). \<exists>n. get (columns df) r ''token_count'' \<in> {I n, NaN})
     \<longrightarrow> (\<exists>out. filter_short_articles df min_tokens = Inr out)) \<and>
   (\<forall>out. filter_short_articles df min_tokens = Inr out \<longrightarrow>
      len out \<le> len df \<and>
      subseq (rows out) (rows df) \<and>
      (\<forall>r \<in> set (rows out). \<exists>n. get (columns out) r ''token_count'' = I n \<and> min_tokens \<le> n))"
proof (intro conjI impI allI)
  assume a: "''token_count'' \<in> set (columns df) \<and>
      (\<forall>r \<in> set (rows df). \<exists>n. get (columns df) r ''token_count'' \<in> {I n, NaN})"
  have "\<forall>x \<in> set (map (\<lambda>v. cell_ge v min_tokens) (column df ''token_count'')). \<exists>v. x = Inr v"
  proof
    fix x
    assume "x \<in> set (map (\<lambda>v. cell_ge v min_tokens) (column df ''token_count''))"
    then obtain r where r: "r \<in> set (rows df)"
      and x: "x = cell_ge (get (columns df) r ''token_count'') min_tokens"
      by (auto simp: column_def)
    from a r obtain n where "get (columns df) r ''token_count'' \<in> {I n, NaN}"
      by blast
    with x show "\<exists>v. x = Inr v" by auto
  qed
  then obtain keep where
    "collect (map (\<lambda>v. cell_ge v min_tokens) (column df ''token_count'')) = Inr keep"
    using collect_total by blast
  with a show "\<exists>out. filter_short_articles df min_tokens = Inr out"
    by (simp add: filter_short_articles_def getitem_def)
next
  fix out
  assume ok: "filter_short_articles df min_tokens = Inr out"
  then obtain keep where
    keep: "collect (map (\<lambda>v. cell_ge v min_tokens) (column df ''token_count'')) = Inr keep"
    and out: "out = select_rows df keep"
    by (auto simp: filter_short_articles_def getitem_def split: if_splits sum.splits)
  show sub: "subseq (rows out) (rows df)"
    by (simp add: out select_rows_subseq)
  show "len out \<le> len df"
    using list_emb_length [OF sub] by (simp add: len_def)
  show "\<forall>r \<in> set (rows out). \<exists>n. get (columns out) r ''token_count'' = I n \<and> min_tokens \<le> n"
  proof
    fix r
    assume "r \<in> set (rows out)"
    then obtain i where i: "i < length (rows df)" "rows df ! i = r" "keep ! i"
      using select_rows_mem out by blast
    have "cell_ge (get (columns df) r ''token_count'') min_tokens = Inr (keep ! i)"
      using collect_nth [OF keep, of i] i by (simp add: column_def)
    with i(3) show "\<exists>n. get (columns out) r ''token_count'' = I n \<and> min_tokens \<le> n"
      by (cases "get (columns df) r ''token_count''") (auto simp: out)
  qed
qed

theorem filter_short_articles_monotone_witness:
  "filter_short_articles
     \<lparr>columns = [''body_text'', ''token_count''],
      rows = [[S ''ok'', I 1], [S ''long'', I 25], [S ''none'', NaN]]\<rparr> MIN_TOKENS
   = Inr \<lparr>columns = [''body_text'', ''token_count''], rows = [[S ''long'', I 25]]\<rparr> \<and>
   get [''body_text'', ''token_count''] [S ''long'', I 25] ''token_count'' = I 25 \<and>
   MIN_TOKENS \<le> 25"
proof -
  let ?df = "\<lparr>columns = [''body_text'', ''token_count''],
      rows = [[S ''ok'', I 1], [S ''long'', I 25], [S ''none'', NaN]]\<rparr>"
  have run: "filter_short_articles ?df MIN_TOKENS
     = Inr \<lparr>columns = [''body_text'', ''token_count''], rows = [[S ''long'', I 25]]\<rparr>"
    by (simp add: filter_short_articles_def getitem_def column_def get_def select_rows_def
        MIN_TOKENS_def)
  from filter_short_articles_monotone [of ?df MIN_TOKENS] run
  have "\<forall>r \<in> set [[S ''long'', I 25]].
      \<exists>n. get [''body_text'', ''token_count''] r ''token_count'' = I n \<and> MIN_TOKENS \<le> n"
    by simp
  then have "get [''body_text'', ''token_count''] [S ''long'', I 25] ''token_count'' = I 25 \<and>
      MIN_TOKENS \<le> 25"
    by (auto simp: get_def)
  with run show ?thesis by simp
qed

section \<open>Properties of the deduplicator\<close>

lemma keep_first_filter:
  "filter (\<lambda>x. key x = u) (keep_first key seen xs) =
     (if u \<in> set seen then [] else take 1 (filter (\<lambda>x. key x = u) xs))"
proof (induction xs arbitrary: seen)
  case Nil
  then show ?case by simp
next
  case (Cons x xs)
  show ?case
  proof (cases "key x \<in> set seen")
    case True
    then show ?thesis using Cons.IH [of seen] by auto
  next
    case False
    then show ?thesis using Cons.IH [of "key x # seen"] by auto
  qed
qed

lemma keep_first_subseq: "subseq (keep_first key seen xs) xs"
  by (induction xs arbitrary: seen) auto

lemma drop_duplicates_Inr:
  assumes "drop_duplicates c df = Inr out"
  shows "columns out = columns df"
    and "rows out = keep_first (\<lambda>r. get (columns df) r c) [] (rows df)"
  using assms by (auto simp: drop_duplicates_def split: sum.splits)

lemma drop_duplicates_total:
  assumes "c \<in> set (columns df)"
    and "\<forall>r \<in> set (rows df). \<forall>xs. get (columns df) r c \<noteq> L xs"
  shows "\<exists>out. drop_duplicates c df = Inr out"
proof -
  have "\<forall>x \<in> set (map hashable (column df c)). \<exists>v. x = Inr v"
  proof
    fix x
    assume "x \<in> set (map hashable (column df c))"
    then obtain r where r: "r \<in> set (rows df)" and x: "x = hashable (get (columns df) r c)"
      by (auto simp: column_def)
    from assms(2) r have "\<forall>xs. get (columns df) r c \<noteq> L xs" by blast
    then show "\<exists>v. x = Inr v"
      unfolding x by (cases "get (columns df) r c") auto
  qed
  then obtain keys where "collect (map hashable (column df c)) = Inr keys"
    using collect_total by blast
  with assms(1) show ?thesis
    by (simp add: drop_duplicates_def getitem_def)
qed

lemma dedup_stage_survivors:
  assumes "''url'' \<in> set (columns df)" and "dedup_stage df = Inr out"
  shows "filter (\<lambda>r. url out r = u) (rows out) = take 1 (filter (\<lambda>r. url df r = u) (rows df))"
proof -
  from assms have dd: "drop_duplicates ''url'' df = Inr out"
    by (simp add: dedup_stage_def)
  have "filter (\<lambda>r. get (columns df) r ''url'' = u)
          (keep_first (\<lambda>r. get (columns df) r ''url'') [] (rows df))
        = take 1 (filter (\<lambda>r. get (columns df) r ''url'' = u) (rows df))"
    using keep_first_filter [of "\<lambda>r. get (columns df) r ''url''" u "[]" "rows df"] by simp
  then show ?thesis
    by (simp add: url_def drop_duplicates_Inr [OF dd])
qed

text \<open>
  Claim C3. In a corpus with a url field, when a url occurs in more than one record, the
  deduplicator leaves exactly one record with that url, and it is the first record with
  that url in the order of the corpus. The deduplicator returns whenever no url cell is a
  list.
\<close>

theorem dedup_keeps_first_occurrence:
  assumes "''url'' \<in> set (columns df)"
    and "1 < length (filter (\<lambda>r. url df r = u) (rows df))"
  shows "(\<forall>out. dedup_stage df = Inr out \<longrightarrow>
            filter (\<lambda>r. url out r = u) (rows out) = [hd (filter (\<lambda>r. url df r = u) (rows df))]) \<and>
         ((\<forall>r \<in> set (rows df). \<forall>xs. url df r \<noteq> L xs) \<longrightarrow> (\<exists>out. dedup_stage df = Inr out))"
proof (intro conjI allI impI)
  fix out
  assume ok: "dedup_stage df = Inr out"
  from assms(2) obtain x xs where xs: "filter (\<lambda>r. url df r = u) (rows df) = x # xs"
    by (cases "filter (\<lambda>r. url df r = u) (rows df)") auto
  show "filter (\<lambda>r. url out r = u) (rows out) = [hd (filter (\<lambda>r. url df r = u) (rows df))]"
    using dedup_stage_survivors [OF assms(1) ok, of u] by (simp add: xs)
next
  assume "\<forall>r \<in> set (rows df). \<forall>xs. url df r \<noteq> L xs"
  then show "\<exists>out. dedup_stage df = Inr out"
    using drop_duplicates_total [OF assms(1)] assms(1)
    by (simp add: dedup_stage_def url_def)
qed

theorem dedup_keeps_first_occurrence_witness:
  "dedup_stage
     \<lparr>columns = [''url'', ''headline''],
      rows = [[S ''u1'', S ''a''], [S ''u2'', S ''b''], [S ''u1'', S ''c''], [S ''u1'', S ''d'']]\<rparr>
   = Inr \<lparr>columns = [''url'', ''headline''],
          rows = [[S ''u1'', S ''a''], [S ''u2'', S ''b'']]\<rparr> \<and>
   filter (\<lambda>r. url \<lparr>columns = [''url'', ''headline''],
          rows = [[S ''u1'', S ''a''], [S ''u2'', S ''b'']]\<rparr> r = S ''u1'')
      [[S ''u1'', S ''a''], [S ''u2'', S ''b'']] = [[S ''u1'', S ''a'']]"
proof -
  let ?df = "\<lparr>columns = [''url'', ''headline''],
      rows = [[S ''u1'', S ''a''], [S ''u2'', S ''b''], [S ''u1'', S ''c''], [S ''u1'', S ''d'']]\<rparr>"
  let ?out = "\<lparr>columns = [''url'', ''headline''],
      rows = [[S ''u1'', S ''a''], [S ''u2'', S ''b'']]\<rparr>"
  have c: "''url'' \<in> set (columns ?df)" by simp
  have k: "1 < length (filter (\<lambda>r. url ?df r = S ''u1'') (rows ?df))"
    by (simp add: url_def get_def)
  have run: "dedup_stage ?df = Inr ?out"
    by (simp add: dedup_stage_def drop_duplicates_def getitem_def column_def get_def)
  from dedup_keeps_first_occurrence [OF c k] run
  have "filter (\<lambda>r. url ?out r = S ''u1'') (rows ?out)
      = [hd (filter (\<lambda>r. url ?df r = S ''u1'') (rows ?df))]"
    by blast
  then have "filter (\<lambda>r. url ?out r = S ''u1'') [[S ''u1'', S ''a''], [S ''u2'', S ''b'']]
      = [[S ''u1'', S ''a'']]"
    by (simp add: url_def get_def)
  with run show ?thesis by simp
qed

text \<open>
  Claim C4, as the spec states it, fails: records whose url is missing are duplicates of
  one another, and only the first of them survives.
\<close>

theorem dedup_null_url_counterexample:
  "dedup_stage
     \<lparr>columns = [''url'', ''headline''],
      rows = [[NaN, S ''first''], [NaN, S ''second''], [S [], S ''third''], [S [], S ''fourth'']]\<rparr>
   = Inr \<lparr>columns = [''url'', ''headline''],
          rows = [[NaN, S ''first''], [S [], S ''third'']]\<rparr>"
  by (simp add: dedup_stage_def drop_duplicates_def getitem_def column_def get_def)

text \<open>
  Claim C4, amended. In a corpus with a url field, the records whose url is missing share
  one url value, and so do the records whose url is the empty string: of each of the two
  groups the deduplicator keeps the first record and no other.
\<close>

theorem dedup_null_url_first_only:
  assumes "''url'' \<in> set (columns df)"
    and "dedup_stage df = Inr out"
    and "u = NaN \<or> u = S []"
  shows "filter (\<lambda>r. url out r = u) (rows out) = take 1 (filter (\<lambda>r. url df r = u) (rows df)) \<and>
         length (filter (\<lambda>r. url out r = u) (rows out)) \<le> 1"
proof -
  have eq: "filter (\<lambda>r. url out r = u) (rows out) = take 1 (filter (\<lambda>r. url df r = u) (rows df))"
    by (rule dedup_stage_survivors [OF assms(1) assms(2)])
  moreover have "length (take 1 (filter (\<lambda>r. url df r = u) (rows df))) \<le> 1"
    by simp
  ultimately show ?thesis by simp
qed

theorem dedup_null_url_first_only_witness:
  "filter (\<lambda>r. url \<lparr>columns = [''url'', ''headline''],
            rows = [[NaN, S ''first''], [S ''u'', S ''third'']]\<rparr> r = NaN)
      [[NaN, S ''first''], [S ''u'', S ''third'']] = [[NaN, S ''first'']]"
proof -
  let ?df = "\<lparr>columns = [''url'', ''headline''],
      rows = [[NaN, S ''first''], [NaN, S ''second''], [S ''u'', S ''third'']]\<rparr>"
  let ?out = "\<lparr>columns = [''url'', ''headline''],
      rows = [[NaN, S ''first''], [S ''u'', S ''third'']]\<rparr>"
  have c: "''url'' \<in> set (columns ?df)" by simp
  have run: "dedup_stage ?df = Inr ?out"
    by (simp add: dedup_stage_def drop_duplicates_def getitem_def column_def get_def)
  have u: "(NaN :: cell) = NaN \<or> NaN = S []" by simp
  from dedup_null_url_first_only [OF c run u]
  have "filter (\<lambda>r. url ?out r = NaN) (rows ?out)
      = take 1 (filter (\<lambda>r. url ?df r = NaN) (rows ?df))"
    by blast
  then show ?thesis by (simp add: url_def get_def)
qed

text \<open>
  Claim C10. When the combined corpus has no url field, the deduplication stage is
  skipped: the stage returns the corpus it was given, with every record, copies included,
  in place.
\<close>

theorem dedup_skipped_without_url:
  assumes "''url'' \<notin> set (columns df)"
  shows "dedup_stage df = Inr df"
  using assms unfolding dedup_stage_def by simp

theorem dedup_skipped_without_url_witness:
  "dedup_stage \<lparr>columns = [''link'', ''headline''],
      rows = [[S ''u1'', S ''a''], [S ''u1'', S ''a''], [NaN, S ''a'']]\<rparr>
   = Inr \<lparr>columns = [''link'', ''headline''],
      rows = [[S ''u1'', S ''a''], [S ''u1'', S ''a''], [NaN, S ''a'']]\<rparr>"
proof -
  let ?df = "\<lparr>columns = [''link'', ''headline''],
      rows = [[S ''u1'', S ''a''], [S ''u1'', S ''a''], [NaN, S ''a'']]\<rparr>"
  have "''url'' \<notin> set (columns ?df)" by simp
  then show ?thesis by (rule dedup_skipped_without_url)
qed

section \<open>Properties of the balanced sampler\<close>

lemma get_reindexed:
  assumes "c \<in> set cols'"
  shows "get cols' (map f cols') c = f c"
  using assms by (simp add: get_def map_of_zip_map)

lemma keep_first_id_set: "set (keep_first id seen xs) = set xs - set seen"
  by (induction xs arbitrary: seen) auto

lemma masked_rows:
  "map fst (filter snd (zip xs (map f xs))) = filter f xs"
  by (induction xs) auto

lemma select_rows_by_column:
  "rows (select_rows df (map f (column df c))) = filter (\<lambda>r. f (get (columns df) r c)) (rows df)"
proof -
  have "map f (column df c) = map (\<lambda>r. f (get (columns df) r c)) (rows df)"
    by (simp add: column_def)
  then show ?thesis
    by (simp add: select_rows_def masked_rows)
qed

lemma where_eq_Inr:
  assumes "where_eq df c v = Inr out"
  shows "c \<in> set (columns df)"
    and "columns out = columns df"
    and "rows out = filter (\<lambda>r. get (columns df) r c = v) (rows df)"
proof -
  from assms show c: "c \<in> set (columns df)"
    by (auto simp: where_eq_def getitem_def split: if_splits)
  with assms have out: "out = select_rows df (map (\<lambda>x. x = v) (column df c))"
    by (simp add: where_eq_def getitem_def)
  show "columns out = columns df"
    by (simp add: out)
  show "rows out = filter (\<lambda>r. get (columns df) r c = v) (rows df)"
    unfolding out by (rule select_rows_by_column)
qed

lemma sample_Inr:
  assumes "draws_without_replacement np" and "sample np df n random_state = Inr out"
  shows "columns out = columns df"
    and "length (rows out) = n"
    and "set (rows out) \<subseteq> set (rows df)"
proof -
  let ?ix = "choice np (RandomState np random_state) (len df) n"
  from assms(2) have n: "n \<le> len df" and out: "out = df\<lparr>rows := map (\<lambda>i. rows df ! i) ?ix\<rparr>"
    by (auto simp: sample_def split: if_splits)
  from assms(1) n have ix: "length ?ix = n" "\<forall>i \<in> set ?ix. i < len df"
    unfolding draws_without_replacement_def by blast+
  show "columns out = columns df" by (simp add: out)
  show "length (rows out) = n" by (simp add: out ix(1))
  show "set (rows out) \<subseteq> set (rows df)"
    using ix(2) by (auto simp: out len_def)
qed

lemma filter_all: "(\<forall>x \<in> set xs. P x) \<Longrightarrow> filter P xs = xs"
  by (induction xs) auto

lemma filter_none: "(\<forall>x \<in> set xs. \<not> P x) \<Longrightarrow> filter P xs = []"
  by (induction xs) auto

text \<open>
  One round of the loop: the sample of a category for a year holds records of that
  category and year only, as many as the smaller of the two groups.
\<close>

lemma sampling_loop_counts:
  assumes np: "draws_without_replacement np"
    and cat: "\<forall>r \<in> set (rows chinese_df). get (columns chinese_df) r ''source_category'' = S cc"
             "\<forall>r \<in> set (rows western_df). get (columns western_df) r ''source_category'' = S cw"
    and cols: "columns chinese_df = cols" "columns western_df = cols"
    and ne: "cc \<noteq> cw"
  shows "sampling_loop np random_state chinese_df western_df years = Inr balanced_samples \<Longrightarrow>
         distinct years \<Longrightarrow>
         (\<forall>d \<in> set balanced_samples. columns d = cols) \<and>
         (\<forall>y. length (filter (\<lambda>r. get cols r ''source_category'' = S cc \<and> get cols r ''year'' = I y)
                  (concat (map rows balanced_samples)))
              = (if y \<in> set years
                 then min (length (filter (\<lambda>r. get cols r ''year'' = I y) (rows chinese_df)))
                          (length (filter (\<lambda>r. get cols r ''year'' = I y) (rows western_df)))
                 else 0)) \<and>
         (\<forall>y. length (filter (\<lambda>r. get cols r ''source_category'' = S cw \<and> get cols r ''year'' = I y)
                  (concat (map rows balanced_samples)))
              = (if y \<in> set years
                 then min (length (filter (\<lambda>r. get cols r ''year'' = I y) (rows chinese_df)))
                          (length (filter (\<lambda>r. get cols r ''year'' = I y) (rows western_df)))
                 else 0)) \<and>
         (\<forall>r \<in> set (concat (map rows balanced_samples)). \<exists>y \<in> set years. get cols r ''year'' = I y)"
proof (induction years arbitrary: balanced_samples)
  case Nil
  then show ?case by simp
next
  case (Cons year years)
  let ?PC = "\<lambda>y r. get cols r ''source_category'' = S cc \<and> get cols r ''year'' = I y"
  let ?PW = "\<lambda>y r. get cols r ''source_category'' = S cw \<and> get cols r ''year'' = I y"
  let ?nC = "\<lambda>y. length (filter (\<lambda>r. get cols r ''year'' = I y) (rows chinese_df))"
  let ?nW = "\<lambda>y. length (filter (\<lambda>r. get cols r ''year'' = I y) (rows western_df))"
  from Cons.prems(1) obtain chinese_year western_year where
    cy: "where_eq chinese_df ''year'' (I year) = Inr chinese_year" and
    wy: "where_eq western_df ''year'' (I year) = Inr western_year"
    by (auto split: sum.splits)
  note cyf = where_eq_Inr [OF cy, unfolded cols] and wyf = where_eq_Inr [OF wy, unfolded cols]
  have lc: "len chinese_year = ?nC year" and lw: "len western_year = ?nW year"
    by (simp_all add: len_def cyf(3) wyf(3))
  from Cons.prems(2) have dist: "distinct years" and fresh: "year \<notin> set years"
    by simp_all
  let ?n = "min (?nC year) (?nW year)"
  have step: "sampling_loop np random_state chinese_df western_df (year # years) =
      (if 0 < ?n then
         (case sample np chinese_year ?n random_state of
            Inl e \<Rightarrow> Inl e
          | Inr chinese_sample \<Rightarrow>
         (case sample np western_year ?n random_state of
            Inl e \<Rightarrow> Inl e
          | Inr western_sample \<Rightarrow>
         (case sampling_loop np random_state chinese_df western_df years of
            Inl e \<Rightarrow> Inl e
          | Inr balanced_samples \<Rightarrow>
              Inr (chinese_sample # western_sample # balanced_samples))))
       else sampling_loop np random_state chinese_df western_df years)"
    by (simp add: Let_def cy wy lc lw)
  show ?case
  proof (cases "0 < min (?nC year) (?nW year)")
    case False
    with Cons.prems(1) [unfolded step]
    have rest: "sampling_loop np random_state chinese_df western_df years = Inr balanced_samples"
      by (simp only: if_False)
    note IH = Cons.IH [OF rest dist]
    from False have zero: "min (?nC year) (?nW year) = 0" by linarith
    show ?thesis
    proof (intro conjI allI ballI)
      fix d assume "d \<in> set balanced_samples"
      then show "columns d = cols" using IH by blast
    next
      fix y
      show "length (filter (?PC y) (concat (map rows balanced_samples)))
          = (if y \<in> set (year # years) then min (?nC y) (?nW y) else 0)"
        using IH zero by (cases "y = year") (simp_all add: fresh)
    next
      fix y
      show "length (filter (?PW y) (concat (map rows balanced_samples)))
          = (if y \<in> set (year # years) then min (?nC y) (?nW y) else 0)"
        using IH zero by (cases "y = year") (simp_all add: fresh)
    next
      fix r assume "r \<in> set (concat (map rows balanced_samples))"
      with IH obtain y where "y \<in> set years" "get cols r ''year'' = I y" by blast
      then show "\<exists>y \<in> set (year # years). get cols r ''year'' = I y" by auto
    qed
  next
    case True
    with Cons.prems(1) [unfolded step]
    have "(case sample np chinese_year ?n random_state of
            Inl e \<Rightarrow> Inl e
          | Inr chinese_sample \<Rightarrow>
         (case sample np western_year ?n random_state of
            Inl e \<Rightarrow> Inl e
          | Inr western_sample \<Rightarrow>
         (case sampling_loop np random_state chinese_df western_df years of
            Inl e \<Rightarrow> Inl e
          | Inr balanced_samples \<Rightarrow>
              Inr (chinese_sample # western_sample # balanced_samples)))) = Inr balanced_samples"
      by (simp only: if_True)
    then obtain chinese_sample western_sample rest where
      cs: "sample np chinese_year ?n random_state = Inr chinese_sample" and
      ws: "sample np western_year ?n random_state = Inr western_sample" and
      rest: "sampling_loop np random_state chinese_df western_df years = Inr rest" and
      bs: "balanced_samples = chinese_sample # western_sample # rest"
      by (auto split: sum.splits)
    note IH = Cons.IH [OF rest dist]
    note csf = sample_Inr [OF np cs] and wsf = sample_Inr [OF np ws]
    have cs_rows: "\<forall>r \<in> set (rows chinese_sample).
        get cols r ''source_category'' = S cc \<and> get cols r ''year'' = I year"
      using csf(3) cyf(3) cat(1) cols(1) by auto
    have ws_rows: "\<forall>r \<in> set (rows western_sample).
        get cols r ''source_category'' = S cw \<and> get cols r ''year'' = I year"
      using wsf(3) wyf(3) cat(2) cols(2) by auto
    have cC: "length (filter (?PC y) (rows chinese_sample)) = (if y = year then ?n else 0)" for y
    proof (cases "y = year")
      case True
      then show ?thesis using filter_all [of "rows chinese_sample" "?PC y"] cs_rows csf(2) by simp
    next
      case False
      then show ?thesis using filter_none [of "rows chinese_sample" "?PC y"] cs_rows by simp
    qed
    have cW: "length (filter (?PW y) (rows chinese_sample)) = 0" for y
      using filter_none [of "rows chinese_sample" "?PW y"] cs_rows ne by simp
    have wW: "length (filter (?PW y) (rows western_sample)) = (if y = year then ?n else 0)" for y
    proof (cases "y = year")
      case True
      then show ?thesis using filter_all [of "rows western_sample" "?PW y"] ws_rows wsf(2) by simp
    next
      case False
      then show ?thesis using filter_none [of "rows western_sample" "?PW y"] ws_rows by simp
    qed
    have wC: "length (filter (?PC y) (rows western_sample)) = 0" for y
      using filter_none [of "rows western_sample" "?PC y"] ws_rows ne by simp
    show ?thesis
    proof (intro conjI allI ballI)
      fix d assume "d \<in> set balanced_samples"
      then show "columns d = cols"
        using IH csf(1) wsf(1) cyf(2) wyf(2) by (auto simp: bs)
    next
      fix y
      have "length (filter (?PC y) (concat (map rows balanced_samples)))
          = length (filter (?PC y) (rows chinese_sample))
          + length (filter (?PC y) (rows western_sample))
          + length (filter (?PC y) (concat (map rows rest)))"
        by (simp add: bs)
      also have "\<dots> = (if y \<in> set (year # years) then min (?nC y) (?nW y) else 0)"
        using IH fresh by (cases "y = year") (simp_all add: cC wC)
      finally show "length (filter (?PC y) (concat (map rows balanced_samples)))
          = (if y \<in> set (year # years) then min (?nC y) (?nW y) else 0)" .
    next
      fix y
      have "length (filter (?PW y) (concat (map rows balanced_samples)))
          = length (filter (?PW y) (rows chinese_sample))
          + length (filter (?PW y) (rows western_sample))
          + length (filter (?PW y) (concat (map rows rest)))"
        by (simp add: bs)
      also have "\<dots> = (if y \<in> set (year # years) then min (?nC y) (?nW y) else 0)"
        using IH fresh by (cases "y = year") (simp_all add: cW wW)
      finally show "length (filter (?PW y) (concat (map rows balanced_samples)))
          = (if y \<in> set (year # years) then min (?nC y) (?nW y) else 0)" .
    next
      fix r assume "r \<in> set (concat (map rows balanced_samples))"
      then consider "r \<in> set (rows chinese_sample)" | "r \<in> set (rows western_sample)"
        | "r \<in> set (concat (map rows rest))"
        by (auto simp: bs)
      then show "\<exists>y \<in> set (year # years). get cols r ''year'' = I y"
      proof cases
        case 1
        then show ?thesis using cs_rows by auto
      next
        case 2
        then show ?thesis using ws_rows by auto
      next
        case 3
        with IH obtain y where "y \<in> set years" "get cols r ''year'' = I y" by blast
        then show ?thesis by auto
      qed
    qed
  qed
qed
lemma available_years_distinct:
  assumes "available_years col = Inr years"
  shows "distinct years" and "\<forall>y \<in> set years. 2017 \<le> y \<and> y \<le> 2024"
  using assms by (auto simp: available_years_def split: sum.splits)

lemma pd_concat_same_columns:
  assumes "balanced_samples \<noteq> []"
    and "\<forall>d \<in> set balanced_samples. columns d = cols"
    and "pd_concat balanced_samples = Inr out"
  shows "set (columns out) = set cols"
    and "rows out = map (\<lambda>r. map (get cols r) (columns out)) (concat (map rows balanced_samples))"
proof -
  let ?cols' = "keep_first id [] (concat (map columns balanced_samples))"
  from assms(1,3) have out: "out = \<lparr>columns = ?cols', rows = concat (map (reindex ?cols') balanced_samples)\<rparr>"
    by (simp add: pd_concat_def Let_def)
  from assms(1) obtain d where "d \<in> set balanced_samples"
    by (cases balanced_samples) auto
  with assms(2) show "set (columns out) = set cols"
    by (auto simp: out keep_first_id_set)
  have e1: "map (reindex ?cols') balanced_samples
      = map (\<lambda>d. map (\<lambda>r. map (get cols r) ?cols') (rows d)) balanced_samples"
    using assms(2) by (simp add: reindex_def)
  have e2: "concat (map (\<lambda>d. map h (rows d)) balanced_samples)
      = map h (concat (map rows balanced_samples))" for h :: "cell list \<Rightarrow> cell list"
    by (simp add: map_concat comp_def)
  have "rows out = concat (map (reindex ?cols') balanced_samples)"
    by (simp add: out)
  also have "\<dots> = concat (map (\<lambda>d. map (\<lambda>r. map (get cols r) ?cols') (rows d)) balanced_samples)"
    by (simp only: e1)
  also have "\<dots> = map (\<lambda>r. map (get cols r) ?cols') (concat (map rows balanced_samples))"
    by (rule e2)
  also have "?cols' = columns out"
    by (simp add: out)
  finally show "rows out = map (\<lambda>r. map (get cols r) (columns out)) (concat (map rows balanced_samples))" .
qed

lemma count_reindexed:
  assumes "c1 \<in> set cols'" and "c2 \<in> set cols'"
  shows "length (filter (\<lambda>r. get cols' r c1 = v1 \<and> get cols' r c2 = v2)
                  (map (\<lambda>r. map (get cols r) cols') rs))
       = length (filter (\<lambda>r. get cols r c1 = v1 \<and> get cols r c2 = v2) rs)"
  using assms by (simp add: filter_map comp_def get_reindexed)

text \<open>
  What a successful call of the sampler has done: per category and year, the output holds
  the smaller of the two input counts when the year is one of the loop, and nothing
  otherwise; every record of the output has a year of the loop.
\<close>

lemma create_balanced_dataset_counts:
  assumes np: "draws_without_replacement np"
    and ok: "snd (create_balanced_dataset np g df random_state) = Inr out"
  shows "\<exists>years. getitem df ''year'' \<noteq> Inl KeyError \<and>
           available_years (column df ''year'') = Inr years \<and>
           (\<forall>y. count_records out ''Chinese State Media'' y
                = (if y \<in> set years
                   then min (count_records df ''Chinese State Media'' y)
                            (count_records df ''Western Media'' y) else 0)) \<and>
           (\<forall>y. count_records out ''Western Media'' y
                = (if y \<in> set years
                   then min (count_records df ''Chinese State Media'' y)
                            (count_records df ''Western Media'' y) else 0)) \<and>
           (\<forall>r \<in> set (rows out). \<exists>y \<in> set years. get (columns out) r ''year'' = I y)"
proof -
  let ?cc = "''Chinese State Media''" and ?cw = "''Western Media''"
  let ?cols = "columns df"
  from ok obtain chinese_df western_df year_col years balanced_samples where
    c: "where_eq df ''source_category'' (S ?cc) = Inr chinese_df" and
    w: "where_eq df ''source_category'' (S ?cw) = Inr western_df" and
    yc: "getitem df ''year'' = Inr year_col" and
    ys: "available_years year_col = Inr years" and
    loop: "sampling_loop np random_state chinese_df western_df years = Inr balanced_samples" and
    cat: "pd_concat balanced_samples = Inr out"
    by (auto simp: create_balanced_dataset_def split: sum.splits)
  note cf = where_eq_Inr [OF c] and wf = where_eq_Inr [OF w]
  from yc have ycol: "''year'' \<in> set ?cols" and year_col: "year_col = column df ''year''"
    by (auto simp: getitem_def split: if_splits)
  have catc: "\<forall>r \<in> set (rows chinese_df). get (columns chinese_df) r ''source_category'' = S ?cc"
    by (simp add: cf)
  have catw: "\<forall>r \<in> set (rows western_df). get (columns western_df) r ''source_category'' = S ?cw"
    by (simp add: wf)
  have ne: "?cc \<noteq> ?cw" by simp
  note L = sampling_loop_counts [OF np catc catw cf(2) wf(2) ne loop
      available_years_distinct(1) [OF ys]]
  have nC: "length (filter (\<lambda>r. get ?cols r ''year'' = I y) (rows chinese_df))
      = count_records df ?cc y" for y
    by (simp add: cf(3) count_records_def)
  have nW: "length (filter (\<lambda>r. get ?cols r ''year'' = I y) (rows western_df))
      = count_records df ?cw y" for y
    by (simp add: wf(3) count_records_def)
  from cat have nonempty: "balanced_samples \<noteq> []"
    by (auto simp: pd_concat_def)
  from L have same: "\<forall>d \<in> set balanced_samples. columns d = ?cols" by blast
  note P = pd_concat_same_columns [OF nonempty same cat]
  have sc_in: "''source_category'' \<in> set (columns out)" and y_in: "''year'' \<in> set (columns out)"
    using P(1) cf(1) ycol by simp_all
  have count_out: "count_records out cat' y
      = length (filter (\<lambda>r. get ?cols r ''source_category'' = S cat' \<and> get ?cols r ''year'' = I y)
          (concat (map rows balanced_samples)))" for cat' y
    unfolding count_records_def P(2) by (rule count_reindexed [OF sc_in y_in])
  have years_out: "\<forall>r \<in> set (rows out). \<exists>y \<in> set years. get (columns out) r ''year'' = I y"
  proof
    fix r' assume "r' \<in> set (rows out)"
    then obtain r where r: "r \<in> set (concat (map rows balanced_samples))"
      and r': "r' = map (get ?cols r) (columns out)"
      unfolding P(2) by auto
    from L r obtain y where "y \<in> set years" "get ?cols r ''year'' = I y" by blast
    then show "\<exists>y \<in> set years. get (columns out) r' ''year'' = I y"
      unfolding r' using get_reindexed [OF y_in] by auto
  qed
  have "\<forall>y. count_records out ?cc y
      = (if y \<in> set years then min (count_records df ?cc y) (count_records df ?cw y) else 0)"
    using L unfolding count_out nC nW by blast
  moreover have "\<forall>y. count_records out ?cw y
      = (if y \<in> set years then min (count_records df ?cc y) (count_records df ?cw y) else 0)"
    using L unfolding count_out nC nW by blast
  ultimately show ?thesis
    using ys years_out yc unfolding year_col by auto
qed

text \<open>
  Claim C1. Let the sampler return a balanced frame. For every year that occurs in that
  frame, the frame holds as many records of Chinese State Media for the year as of Western
  Media, namely the smaller of the two counts of the input for that year. The generator is
  any that draws without replacement.
\<close>

theorem balanced_counts_per_year:
  assumes "draws_without_replacement np"
    and "snd (create_balanced_dataset np g df random_state) = Inr out"
    and "\<exists>r \<in> set (rows out). get (columns out) r ''year'' = I y"
  shows "count_records out ''Chinese State Media'' y = count_records out ''Western Media'' y \<and>
         count_records out ''Chinese State Media'' y
           = min (count_records df ''Chinese State Media'' y) (count_records df ''Western Media'' y)"
proof -
  from create_balanced_dataset_counts [OF assms(1,2)] obtain years where
    C: "\<forall>y. count_records out ''Chinese State Media'' y
          = (if y \<in> set years
             then min (count_records df ''Chinese State Media'' y)
                      (count_records df ''Western Media'' y) else 0)" and
    W: "\<forall>y. count_records out ''Western Media'' y
          = (if y \<in> set years
             then min (count_records df ''Chinese State Media'' y)
                      (count_records df ''Western Media'' y) else 0)" and
    Y: "\<forall>r \<in> set (rows out). \<exists>y \<in> set years. get (columns out) r ''year'' = I y"
    by blast
  from assms(3) Y have "y \<in> set years" by fastforce
  with C W show ?thesis by simp
qed
lemma rotating_draws_without_replacement: "draws_without_replacement rotating"
  by (auto simp: draws_without_replacement_def rotating_def dest: in_set_takeD)

theorem balanced_counts_per_year_witness:
  "draws_without_replacement rotating \<and>
   snd (create_balanced_dataset rotating 0
     \<lparr>columns = [''url'', ''source_category'', ''year''],
      rows = [[S ''c1'', S ''Chinese State Media'', I 2021],
              [S ''w1'', S ''Western Media'', I 2021],
              [S ''w2'', S ''Western Media'', I 2021],
              [S ''c2'', S ''Chinese State Media'', I 2019],
              [S ''w3'', S ''Western Media'', NaN]]\<rparr> 43)
   = Inr \<lparr>columns = [''url'', ''source_category'', ''year''],
          rows = [[S ''c1'', S ''Chinese State Media'', I 2021],
                  [S ''w2'', S ''Western Media'', I 2021]]\<rparr> \<and>
   count_records
     \<lparr>columns = [''url'', ''source_category'', ''year''],
      rows = [[S ''c1'', S ''Chinese State Media'', I 2021],
              [S ''w2'', S ''Western Media'', I 2021]]\<rparr> ''Chinese State Media'' 2021 = 1 \<and>
   count_records
     \<lparr>columns = [''url'', ''source_category'', ''year''],
      rows = [[S ''c1'', S ''Chinese State Media'', I 2021],
              [S ''w2'', S ''Western Media'', I 2021]]\<rparr> ''Western Media'' 2021 = 1"
proof -
  let ?df = "\<lparr>columns = [''url'', ''source_category'', ''year''],
      rows = [[S ''c1'', S ''Chinese State Media'', I 2021],
              [S ''w1'', S ''Western Media'', I 2021],
              [S ''w2'', S ''Western Media'', I 2021],
              [S ''c2'', S ''Chinese State Media'', I 2019],
              [S ''w3'', S ''Western Media'', NaN]]\<rparr>"
  let ?out = "\<lparr>columns = [''url'', ''source_category'', ''year''],
      rows = [[S ''c1'', S ''Chinese State Media'', I 2021],
              [S ''w2'', S ''Western Media'', I 2021]]\<rparr>"
  have run: "snd (create_balanced_dataset rotating 0 ?df 43) = Inr ?out"
    by code_simp
  have occurs: "\<exists>r \<in> set (rows ?out). get (columns ?out) r ''year'' = I 2021"
    by (simp add: get_def)
  have inC: "count_records ?df ''Chinese State Media'' 2021 = 1"
    by (simp add: count_records_def get_def)
  have inW: "count_records ?df ''Western Media'' 2021 = 2"
    by (simp add: count_records_def get_def)
  from balanced_counts_per_year [OF rotating_draws_without_replacement run occurs]
  have "count_records ?out ''Chinese State Media'' 2021 = 1 \<and>
        count_records ?out ''Western Media'' 2021 = 1"
    unfolding inC inW by simp
  with rotating_draws_without_replacement run show ?thesis by blast
qed

lemma sample_same_draws:
  assumes "choice np (RandomState np random_state) = choice np' (RandomState np' random_state)"
  shows "sample np df n random_state = sample np' df n random_state"
  using assms by (simp add: sample_def)

lemma sampling_loop_same_draws:
  assumes "choice np (RandomState np random_state) = choice np' (RandomState np' random_state)"
  shows "sampling_loop np random_state chinese_df western_df years
       = sampling_loop np' random_state chinese_df western_df years"
proof (induction years)
  case Nil
  show ?case by simp
next
  case (Cons year years)
  have s: "sample np df n random_state = sample np' df n random_state" for df n
    by (rule sample_same_draws [OF assms])
  show ?case
    by (simp only: sampling_loop.simps s Cons.IH)
qed

text \<open>
  Claim C2. Two runs of the sampler on the same corpus with the same seed return the same
  balanced frame. The runs may start from any two states of the global generator and may
  use any two generators that agree on what the seeded state draws: the state of the
  global generator at entry has no part in the result, and every draw is made from the
  state that the seed produces.
\<close>

theorem sampler_deterministic:
  assumes "choice np (RandomState np random_state) = choice np' (RandomState np' random_state)"
  shows "snd (create_balanced_dataset np g df random_state)
       = snd (create_balanced_dataset np' g' df random_state)"
proof -
  have loop: "sampling_loop np random_state c w years = sampling_loop np' random_state c w years"
    for c w years
    by (rule sampling_loop_same_draws [OF assms])
  show ?thesis
    unfolding create_balanced_dataset_def by (simp only: loop snd_conv)
qed

theorem sampler_deterministic_witness:
  "snd (create_balanced_dataset rotating 7
     \<lparr>columns = [''source_category'', ''year''],
      rows = [[S ''Chinese State Media'', I 2020], [S ''Western Media'', I 2020]]\<rparr> 42)
   = snd (create_balanced_dataset
       (rotating\<lparr>choice := (\<lambda>g N n. if g = 42 then take n (rotate g [0..<N]) else [])\<rparr>) 1000
     \<lparr>columns = [''source_category'', ''year''],
      rows = [[S ''Chinese State Media'', I 2020], [S ''Western Media'', I 2020]]\<rparr> 42)"
proof -
  let ?np' = "rotating\<lparr>choice := (\<lambda>g N n. if g = 42 then take n (rotate g [0..<N]) else [])\<rparr>"
  have "choice rotating (RandomState rotating 42) = choice ?np' (RandomState ?np' 42)"
    by (simp add: rotating_def)
  then show ?thesis by (rule sampler_deterministic)
qed

section \<open>Properties of the schema standardizer\<close>

lemma get_Cons:
  "get (c # cols) (v # r) x = (if x = c then v else get cols r x)"
  by (simp add: get_def)

lemma get_Nil_row: "get cols [] x = NaN"
  by (simp add: get_def)

lemma get_rename_other:
  assumes "x \<noteq> old" and "x \<noteq> new"
  shows "get (map (\<lambda>c. if c = old then new else c) cols) r x = get cols r x"
proof (induction cols arbitrary: r)
  case Nil
  show ?case by (simp add: get_def)
next
  case (Cons c cols)
  show ?case
  proof (cases r)
    case Nil
    then show ?thesis by (simp add: get_Nil_row)
  next
    case (Cons v r')
    with assms Cons.IH [of r'] show ?thesis by (simp add: get_Cons)
  qed
qed

lemma get_rename_new:
  assumes "new \<notin> set cols"
  shows "get (map (\<lambda>c. if c = old then new else c) cols) r new = get cols r old"
  using assms
proof (induction cols arbitrary: r)
  case Nil
  show ?case by (simp add: get_def)
next
  case (Cons c cols)
  show ?case
  proof (cases r)
    case Nil
    then show ?thesis by (simp add: get_Nil_row)
  next
    case (Cons v r')
    with Cons.prems Cons.IH [of r'] show ?thesis by (auto simp: get_Cons)
  qed
qed

lemma rename_rows [simp]: "rows (rename old new df) = rows df"
  by (simp add: rename_def)

lemma rename_loop_rows: "rows (rename_loop m df) = rows df"
  by (induction m df rule: rename_loop.induct) (auto simp: rename_def)

lemma rename_loop_length: "length (columns (rename_loop m df)) = length (columns df)"
  by (induction m df rule: rename_loop.induct) (auto simp: rename_def)

lemma rename_loop_append: "rename_loop (m1 @ m2) df = rename_loop m2 (rename_loop m1 df)"
  by (induction m1 df rule: rename_loop.induct) simp_all

lemma first_present_Some:
  assumes "first_present cols as = Some a"
  shows "a \<in> set cols" and "a \<in> set as"
  using assms by (auto simp: first_present_def find_Some_iff)

lemma first_present_cong:
  assumes "\<forall>a \<in> set as. a \<in> set cols' \<longleftrightarrow> a \<in> set cols"
  shows "first_present cols' as = first_present cols as"
  unfolding first_present_def using assms by (intro find_cong) auto

text \<open>The entries of the dictionary for one canonical field act as \<open>promote\<close> does.\<close>

lemma rename_loop_present:
  assumes "c \<in> set (columns df)"
  shows "rename_loop (map (\<lambda>a. (a, c)) as) df = df"
  using assms by (induction as) simp_all

lemma rename_loop_group:
  "rename_loop (map (\<lambda>a. (a, c)) as) df = promote c (filter (\<lambda>a. a \<noteq> c) as) df"
proof (cases "c \<in> set (columns df)")
  case True
  then show ?thesis by (simp add: rename_loop_present promote_def)
next
  case False
  then show ?thesis
  proof (induction as)
    case Nil
    then show ?case by (simp add: promote_def first_present_def)
  next
    case (Cons a as)
    show ?case
    proof (cases "a \<in> set (columns df)")
      case True
      with Cons.prems have ac: "a \<noteq> c" by auto
      have "c \<in> set (columns (rename a c df))"
        using True by (auto simp: rename_def)
      then have "rename_loop (map (\<lambda>a. (a, c)) as) (rename a c df) = rename a c df"
        by (rule rename_loop_present)
      with True Cons.prems ac show ?thesis
        by (simp add: promote_def first_present_def)
    next
      case False
      with Cons show ?thesis
        by (simp add: promote_def first_present_def)
    qed
  qed
qed

lemma promote_rows [simp]: "rows (promote c as df) = rows df"
  by (simp add: promote_def split: option.splits)

lemma promote_untouched:
  assumes "x \<noteq> c \<or> c \<in> set (columns df)"
    and "c \<in> set (columns df) \<or> first_present (columns df) as \<noteq> Some x"
  shows "x \<in> set (columns (promote c as df)) \<longleftrightarrow> x \<in> set (columns df)"
    and "get (columns (promote c as df)) r x = get (columns df) r x"
proof -
  have "(x \<in> set (columns (promote c as df)) \<longleftrightarrow> x \<in> set (columns df)) \<and>
        get (columns (promote c as df)) r x = get (columns df) r x"
  proof (cases "c \<in> set (columns df)")
    case True
    then show ?thesis by (simp add: promote_def)
  next
    case False
    with assms have xc: "x \<noteq> c" and xa: "first_present (columns df) as \<noteq> Some x"
      by auto
    show ?thesis
    proof (cases "first_present (columns df) as")
      case None
      with False show ?thesis by (simp add: promote_def)
    next
      case (Some a)
      with xa have "x \<noteq> a" by auto
      with xc Some False show ?thesis
        by (auto simp: promote_def rename_def get_rename_other)
    qed
  qed
  then show "x \<in> set (columns (promote c as df)) \<longleftrightarrow> x \<in> set (columns df)"
    and "get (columns (promote c as df)) r x = get (columns df) r x"
    by blast+
qed

lemma promote_renamed:
  assumes "c \<notin> set (columns df)" and "first_present (columns df) as = Some a"
  shows "c \<in> set (columns (promote c as df))"
    and "a \<notin> set (columns (promote c as df))"
    and "get (columns (promote c as df)) r c = get (columns df) r a"
proof -
  from assms have a: "a \<in> set (columns df)" and ac: "a \<noteq> c"
    using first_present_Some(1) by auto
  have p: "promote c as df = rename a c df"
    using assms by (simp add: promote_def)
  show "c \<in> set (columns (promote c as df))"
    using a by (auto simp: p rename_def)
  show "a \<notin> set (columns (promote c as df))"
    using ac by (auto simp: p rename_def)
  show "get (columns (promote c as df)) r c = get (columns df) r a"
    using assms(1) by (simp add: p rename_def get_rename_new)
qed

lemma promote_absent:
  assumes "c \<notin> set (columns df)" and "first_present (columns df) as = None"
  shows "promote c as df = df"
  using assms by (simp add: promote_def)

text \<open>
  Several canonical fields, one after the other. When no name belongs to two of them, what
  happens to one field is not disturbed by the others.
\<close>

lemma promote_all_untouched:
  assumes "\<forall>(c, as) \<in> set gs. x \<noteq> c \<and> x \<notin> set as"
  shows "(x \<in> set (columns (fold (\<lambda>(c, as). promote c as) gs df)) \<longleftrightarrow> x \<in> set (columns df)) \<and>
         get (columns (fold (\<lambda>(c, as). promote c as) gs df)) r x = get (columns df) r x"
  using assms
proof (induction gs arbitrary: df)
  case Nil
  show ?case by simp
next
  case (Cons g gs)
  obtain c as where g: "g = (c, as)" by (cases g)
  from Cons.prems g have x: "x \<noteq> c" "x \<notin> set as" by auto
  then have "first_present (columns df) as \<noteq> Some x"
    using first_present_Some(2) by blast
  then have s: "x \<in> set (columns (promote c as df)) \<longleftrightarrow> x \<in> set (columns df)"
      "get (columns (promote c as df)) r x = get (columns df) r x"
    using promote_untouched(1) [of x c df as] promote_untouched(2) [of x c df as r] x(1)
    by blast+
  from Cons.prems have "\<forall>(c, as) \<in> set gs. x \<noteq> c \<and> x \<notin> set as" by simp
  from Cons.IH [OF this, of "promote c as df"] s show ?case
    by (simp add: g)
qed

lemma promote_all_group:
  assumes "apart gs"
    and "(c, as) \<in> set gs"
  shows "(c \<in> set (columns df) \<longrightarrow>
            c \<in> set (columns (fold (\<lambda>(c, as). promote c as) gs df)) \<and>
            get (columns (fold (\<lambda>(c, as). promote c as) gs df)) r c = get (columns df) r c) \<and>
         (c \<notin> set (columns df) \<longrightarrow>
            (case first_present (columns df) as of
               None \<Rightarrow> c \<notin> set (columns (fold (\<lambda>(c, as). promote c as) gs df))
             | Some a \<Rightarrow>
                 c \<in> set (columns (fold (\<lambda>(c, as). promote c as) gs df)) \<and>
                 a \<notin> set (columns (fold (\<lambda>(c, as). promote c as) gs df)) \<and>
                 get (columns (fold (\<lambda>(c, as). promote c as) gs df)) r c = get (columns df) r a))"
  using assms
proof (induction gs arbitrary: df)
  case Nil
  then show ?case by simp
next
  case (Cons g gs)
  obtain c0 as0 where g: "g = (c0, as0)" by (cases g)
  let ?df1 = "promote c0 as0 df"
  let ?out = "fold (\<lambda>(c, as). promote c as) gs ?df1"
  have out: "fold (\<lambda>(c, as). promote c as) (g # gs) df = ?out"
    by (simp add: g)
  from Cons.prems(1) have dist: "apart gs"
    and apart: "\<forall>(c, as) \<in> set gs. \<forall>x \<in> set (c0 # as0). x \<noteq> c \<and> x \<notin> set as"
    by (simp_all add: g)
  show ?case
  proof (cases "(c, as) = (c0, as0)")
    case True
    then have c: "c = c0" and as: "as = as0" by simp_all
    have keep: "(x \<in> set (columns ?out) \<longleftrightarrow> x \<in> set (columns ?df1)) \<and>
        get (columns ?out) r x = get (columns ?df1) r x" if "x \<in> set (c0 # as0)" for x
      using promote_all_untouched [of gs x ?df1 r] apart that by blast
    show ?thesis
    proof (cases "c0 \<in> set (columns df)")
      case True
      then have "?df1 = df" by (simp add: promote_def)
      with keep [of c0] True show ?thesis by (simp add: g c)
    next
      case False
      show ?thesis
      proof (cases "first_present (columns df) as0")
        case None
        with False have "?df1 = df" by (simp add: promote_def)
        with keep [of c0] False None show ?thesis by (simp add: g c as)
      next
        case (Some a)
        note R = promote_renamed(1,2) [OF False Some] promote_renamed(3) [OF False Some, of r]
        from Some have "a \<in> set (c0 # as0)"
          using first_present_Some(2) by simp
        from keep [OF this] keep [of c0] R False Some show ?thesis
          by (simp add: g c as)
      qed
    qed
  next
    case False
    with Cons.prems(2) have mem: "(c, as) \<in> set gs" by (auto simp: g)
    have names: "x \<noteq> c0 \<and> x \<notin> set as0" if "x \<in> set (c # as)" for x
      using apart mem that by fastforce
    have same: "(x \<in> set (columns ?df1) \<longleftrightarrow> x \<in> set (columns df)) \<and>
        get (columns ?df1) r x = get (columns df) r x" if "x \<in> set (c # as)" for x
    proof -
      from names [OF that] have "x \<noteq> c0" "first_present (columns df) as0 \<noteq> Some x"
        using first_present_Some(2) by blast+
      then show ?thesis
        using promote_untouched(1) [of x c0 df as0] promote_untouched(2) [of x c0 df as0 r]
        by blast
    qed
    have fp: "first_present (columns ?df1) as = first_present (columns df) as"
      by (rule first_present_cong) (use same in auto)
    have geta: "get (columns ?df1) r a = get (columns df) r a"
      if "first_present (columns df) as = Some a" for a
      using same [of a] first_present_Some(2) [OF that] by simp
    from Cons.IH [OF dist mem, of ?df1] same [of c] fp geta show ?thesis
      by (auto simp: g split: option.splits)
  qed
qed

lemma promote_all_field_kept:
  assumes "f \<in> set (columns df)"
    and "\<forall>(c, as) \<in> set gs. c \<in> set (columns df) \<or> first_present (columns df) as \<noteq> Some f"
    and "apart gs"
  shows "f \<in> set (columns (fold (\<lambda>(c, as). promote c as) gs df)) \<and>
         get (columns (fold (\<lambda>(c, as). promote c as) gs df)) r f = get (columns df) r f"
  using assms
proof (induction gs arbitrary: df)
  case Nil
  then show ?case by simp
next
  case (Cons g gs)
  obtain c0 as0 where g: "g = (c0, as0)" by (cases g)
  let ?df1 = "promote c0 as0 df"
  from Cons.prems(3) have dist: "apart gs"
    and apart: "\<forall>(c, as) \<in> set gs. \<forall>x \<in> set (c0 # as0). x \<noteq> c \<and> x \<notin> set as"
    by (simp_all add: g)
  from Cons.prems(2) have first: "c0 \<in> set (columns df) \<or> first_present (columns df) as0 \<noteq> Some f"
    by (simp add: g)
  from Cons.prems(1) have fc: "f \<noteq> c0 \<or> c0 \<in> set (columns df)" by auto
  note U = promote_untouched [OF fc first]
  have f1: "f \<in> set (columns ?df1)" using U(1) Cons.prems(1) by simp
  have rest: "\<forall>(c, as) \<in> set gs. c \<in> set (columns ?df1) \<or> first_present (columns ?df1) as \<noteq> Some f"
  proof (intro ballI, clarify)
    fix c as
    assume mem: "(c, as) \<in> set gs" and absent: "c \<notin> set (columns ?df1)"
      and fp: "first_present (columns ?df1) as = Some f"
    have names: "x \<noteq> c0 \<and> x \<notin> set as0" if "x \<in> set (c # as)" for x
      using apart mem that by fastforce
    have same: "x \<in> set (columns ?df1) \<longleftrightarrow> x \<in> set (columns df)" if "x \<in> set (c # as)" for x
    proof -
      from names [OF that] have "x \<noteq> c0" "first_present (columns df) as0 \<noteq> Some x"
        using first_present_Some(2) by blast+
      then show ?thesis
        using promote_untouched(1) [of x c0 df as0] by blast
    qed
    have "first_present (columns ?df1) as = first_present (columns df) as"
      by (rule first_present_cong) (use same in auto)
    with fp absent same [of c] Cons.prems(2) mem show False
      by (auto simp: g)
  qed
  from Cons.IH [OF f1 rest dist] U(2) [of r] show ?case
    by (simp add: g)
qed
lemma canonical_fields_eq:
  "canonical_fields = [''headline'', ''body_text'', ''publication_date'']"
  by (simp add: canonical_fields_def column_mapping_def)

lemma aliases_eq:
  "aliases ''headline'' = [''title'', ''Title'', ''Headline'']"
  "aliases ''body_text'' = [''body'', ''Body'', ''text'', ''content'', ''article_text'']"
  "aliases ''publication_date'' = [''date'', ''Date'', ''pub_date'', ''seendate'']"
  by (simp_all add: aliases_def column_mapping_def)

lemma field_groups_apart: "apart field_groups"
  by (simp add: field_groups_def canonical_fields_eq aliases_eq)

lemma column_mapping_groups:
  "column_mapping =
     map (\<lambda>a. (a, ''headline'')) [''title'', ''Title'', ''headline'', ''Headline''] @
     map (\<lambda>a. (a, ''body_text''))
       [''body'', ''Body'', ''body_text'', ''text'', ''content'', ''article_text''] @
     map (\<lambda>a. (a, ''publication_date''))
       [''date'', ''Date'', ''publication_date'', ''pub_date'', ''seendate'']"
  by (simp add: column_mapping_def)

lemma standardize_columns_promotes:
  "standardize_columns df = fold (\<lambda>(c, as). promote c as) field_groups df"
proof -
  have "standardize_columns df =
      promote ''publication_date'' (aliases ''publication_date'')
        (promote ''body_text'' (aliases ''body_text'')
          (promote ''headline'' (aliases ''headline'') df))"
    unfolding standardize_columns_def column_mapping_groups rename_loop_append rename_loop_group
    by (simp add: aliases_eq)
  then show ?thesis
    by (simp add: field_groups_def canonical_fields_eq)
qed

lemma column_eq:
  assumes "rows out = rows df" and "\<And>r. get (columns out) r c = get (columns df) r a"
  shows "column out c = column df a"
  using assms by (simp add: column_def)

text \<open>
  Claim C9, as the spec states it, fails: the alias that supplies a canonical field is
  relabelled, so its own name is no longer a field of the output.
\<close>

theorem standardize_columns_counterexample:
  "''title'' \<in> set (columns \<lparr>columns = [''url'', ''title''], rows = [[S ''u'', S ''T'']]\<rparr>) \<and>
   ''title'' \<notin> set (columns (standardize_columns
      \<lparr>columns = [''url'', ''title''], rows = [[S ''u'', S ''T'']]\<rparr>)) \<and>
   standardize_columns \<lparr>columns = [''url'', ''title''], rows = [[S ''u'', S ''T'']]\<rparr>
     = \<lparr>columns = [''url'', ''headline''], rows = [[S ''u'', S ''T'']]\<rparr>"
  by (simp add: standardize_columns_def column_mapping_def rename_def)

text \<open>
  Claim C9, amended. The standardizer changes labels only: no cell is touched and the
  number of fields stays the same. A canonical field that is present keeps its values. To
  a canonical field that is absent, the first alias present in the order of the dictionary
  gives its values, and that alias is then no longer a field; without such an alias the
  canonical field stays absent. Every other field of the input is still a field of the
  output, with its values.
\<close>

theorem standardize_columns_relabels:
  "rows (standardize_columns df) = rows df \<and>
   length (columns (standardize_columns df)) = length (columns df) \<and>
   (\<forall>c \<in> set canonical_fields.
      if c \<in> set (columns df)
      then c \<in> set (columns (standardize_columns df)) \<and>
           column (standardize_columns df) c = column df c
      else (case first_present (columns df) (aliases c) of
              None \<Rightarrow> c \<notin> set (columns (standardize_columns df))
            | Some a \<Rightarrow>
                c \<in> set (columns (standardize_columns df)) \<and>
                a \<notin> set (columns (standardize_columns df)) \<and>
                column (standardize_columns df) c = column df a)) \<and>
   (\<forall>f \<in> set (columns df).
      (\<forall>c \<in> set canonical_fields.
          c \<in> set (columns df) \<or> first_present (columns df) (aliases c) \<noteq> Some f) \<longrightarrow>
      f \<in> set (columns (standardize_columns df)) \<and>
      column (standardize_columns df) f = column df f)"
proof (intro conjI ballI impI)
  let ?out = "standardize_columns df"
  show rows: "rows ?out = rows df"
    by (simp add: standardize_columns_def rename_loop_rows)
  show "length (columns ?out) = length (columns df)"
    by (simp add: standardize_columns_def rename_loop_length)
  {
    fix c
    assume c: "c \<in> set canonical_fields"
    then have mem: "(c, aliases c) \<in> set field_groups"
      by (simp add: field_groups_def)
    note G = promote_all_group [OF field_groups_apart mem, of df,
        folded standardize_columns_promotes]
    show "if c \<in> set (columns df)
      then c \<in> set (columns ?out) \<and> column ?out c = column df c
      else (case first_present (columns df) (aliases c) of
              None \<Rightarrow> c \<notin> set (columns ?out)
            | Some a \<Rightarrow>
                c \<in> set (columns ?out) \<and> a \<notin> set (columns ?out) \<and>
                column ?out c = column df a)"
    proof (cases "c \<in> set (columns df)")
      case True
      with G have "c \<in> set (columns ?out)" "\<And>r. get (columns ?out) r c = get (columns df) r c"
        by blast+
      with True show ?thesis
        using column_eq [OF rows, of c c] by simp
    next
      case False
      show ?thesis
      proof (cases "first_present (columns df) (aliases c)")
        case None
        with False G show ?thesis by simp
      next
        case (Some a)
        with False G have "c \<in> set (columns ?out)" "a \<notin> set (columns ?out)"
          "\<And>r. get (columns ?out) r c = get (columns df) r a"
          by simp_all
        with False Some show ?thesis
          using column_eq [OF rows, of c a] by simp
      qed
    qed
  }
  {
    fix f
    assume f: "f \<in> set (columns df)"
      and other: "\<forall>c \<in> set canonical_fields.
          c \<in> set (columns df) \<or> first_present (columns df) (aliases c) \<noteq> Some f"
    from other have "\<forall>(c, as) \<in> set field_groups.
        c \<in> set (columns df) \<or> first_present (columns df) as \<noteq> Some f"
      by (auto simp: field_groups_def)
    note K = promote_all_field_kept [OF f this field_groups_apart,
        folded standardize_columns_promotes]
    from K show "f \<in> set (columns ?out)" by blast
    from K have "\<And>r. get (columns ?out) r f = get (columns df) r f" by blast
    then show "column ?out f = column df f"
      by (rule column_eq [OF rows])
  }
qed

theorem standardize_columns_relabels_witness:
  "column (standardize_columns
      \<lparr>columns = [''Title'', ''title'', ''publication_date'', ''date'', ''url''],
       rows = [[S ''T1'', S ''t2'', S ''2020-01-01'', S ''2021-02-02'', S ''u'']]\<rparr>)
      ''headline'' = [S ''t2''] \<and>
   ''title'' \<notin> set (columns (standardize_columns
      \<lparr>columns = [''Title'', ''title'', ''publication_date'', ''date'', ''url''],
       rows = [[S ''T1'', S ''t2'', S ''2020-01-01'', S ''2021-02-02'', S ''u'']]\<rparr>)) \<and>
   column (standardize_columns
      \<lparr>columns = [''Title'', ''title'', ''publication_date'', ''date'', ''url''],
       rows = [[S ''T1'', S ''t2'', S ''2020-01-01'', S ''2021-02-02'', S ''u'']]\<rparr>)
      ''publication_date'' = [S ''2020-01-01''] \<and>
   column (standardize_columns
      \<lparr>columns = [''Title'', ''title'', ''publication_date'', ''date'', ''url''],
       rows = [[S ''T1'', S ''t2'', S ''2020-01-01'', S ''2021-02-02'', S ''u'']]\<rparr>)
      ''date'' = [S ''2021-02-02''] \<and>
   column (standardize_columns
      \<lparr>columns = [''Title'', ''title'', ''publication_date'', ''date'', ''url''],
       rows = [[S ''T1'', S ''t2'', S ''2020-01-01'', S ''2021-02-02'', S ''u'']]\<rparr>)
      ''Title'' = [S ''T1'']"
proof -
  let ?df = "\<lparr>columns = [''Title'', ''title'', ''publication_date'', ''date'', ''url''],
       rows = [[S ''T1'', S ''t2'', S ''2020-01-01'', S ''2021-02-02'', S ''u'']]\<rparr>"
  note T = standardize_columns_relabels [of ?df]
  have fp: "first_present [''Title'', ''title'', ''publication_date'', ''date'', ''url'']
        (aliases ''headline'') = Some ''title''"
    "first_present [''Title'', ''title'', ''publication_date'', ''date'', ''url'']
        (aliases ''body_text'') = None"
    by (simp_all add: first_present_def aliases_eq)
  from T have "\<forall>c \<in> set canonical_fields.
      if c \<in> set (columns ?df)
      then c \<in> set (columns (standardize_columns ?df)) \<and>
           column (standardize_columns ?df) c = column ?df c
      else (case first_present (columns ?df) (aliases c) of
              None \<Rightarrow> c \<notin> set (columns (standardize_columns ?df))
            | Some a \<Rightarrow>
                c \<in> set (columns (standardize_columns ?df)) \<and>
                a \<notin> set (columns (standardize_columns ?df)) \<and>
                column (standardize_columns ?df) c = column ?df a)"
    by blast
  then have canon: "column (standardize_columns ?df) ''headline'' = column ?df ''title''"
    "''title'' \<notin> set (columns (standardize_columns ?df))"
    "column (standardize_columns ?df) ''publication_date'' = column ?df ''publication_date''"
    by (simp_all add: canonical_fields_eq fp)
  from T have "\<forall>f \<in> set (columns ?df).
      (\<forall>c \<in> set canonical_fields.
          c \<in> set (columns ?df) \<or> first_present (columns ?df) (aliases c) \<noteq> Some f) \<longrightarrow>
      f \<in> set (columns (standardize_columns ?df)) \<and>
      column (standardize_columns ?df) f = column ?df f"
    by blast
  then have other: "column (standardize_columns ?df) ''date'' = column ?df ''date''"
    "column (standardize_columns ?df) ''Title'' = column ?df ''Title''"
    by (simp_all add: canonical_fields_eq fp)
  have "column ?df ''title'' = [S ''t2'']" "column ?df ''publication_date'' = [S ''2020-01-01'']"
    "column ?df ''date'' = [S ''2021-02-02'']" "column ?df ''Title'' = [S ''T1'']"
    by (simp_all add: column_def get_def)
  with canon other show ?thesis by simp
qed

section \<open>Properties of the text normalizer\<close>

subsection \<open>What the patterns match\<close>

lemma match_plus:
  "match_atom (Plus P) s =
     (if s \<noteq> [] \<and> P (hd s)
      then dropWhile P s # map (\<lambda>k. drop k s) (rev [1..<length (takeWhile P s)])
      else [])"
proof (cases "s \<noteq> [] \<and> P (hd s)")
  case True
  then have "takeWhile P s \<noteq> []"
    by (cases s) auto
  then have "1 \<le> length (takeWhile P s)"
    by (simp add: Suc_le_eq)
  then have "[1..<Suc (length (takeWhile P s))] = [1..<length (takeWhile P s)] @ [length (takeWhile P s)]"
    by (rule upt_Suc_append)
  with True show ?thesis
    by (simp add: dropWhile_eq_drop)
next
  case False
  then have "takeWhile P s = []"
    by (cases s) auto
  with False show ?thesis by auto
qed

lemma match_chars:
  "match_seq (map Chr lit @ as) s =
     (if prefix lit s then match_seq as (drop (length lit) s) else [])"
proof (induction lit arbitrary: s)
  case Nil
  show ?case by simp
next
  case (Cons c lit)
  show ?case
  proof (cases s)
    case Nil
    then show ?thesis by simp
  next
    case (Cons x xs)
    with Cons.IH [of xs] show ?thesis by simp
  qed
qed

lemma match_single: "match_seq [a] s = match_atom a s"
proof -
  have c: "concat (map (\<lambda>x. [x]) xs) = xs" for xs :: "string list"
    by (induction xs) auto
  have e: "match_seq [] = (\<lambda>x. [x])"
    by (rule ext) simp
  show ?thesis
    by (simp only: match_seq.simps(2) e c)
qed

lemma first_match_plus:
  "first_match [[Plus P]] s = (if s \<noteq> [] \<and> P (hd s) then Some (dropWhile P s) else None)"
  by (simp add: first_match_def match_single match_plus del: match_atom.simps match_seq.simps)

lemma first_match_class:
  "first_match [[Class P]] s = (if s \<noteq> [] \<and> P (hd s) then Some (tl s) else None)"
  by (cases s) (simp_all add: first_match_def)

text \<open>
  Inside a run of characters other than the closing bracket, no closing bracket is found:
  of all the ways to end the repetition, only the longest can be followed by one.
\<close>

lemma closing_inside_run:
  assumes "k < length (takeWhile (\<lambda>x. x \<noteq> c) s)"
  shows "match_seq [Chr c] (drop k s) = []"
proof -
  let ?P = "\<lambda>x. x \<noteq> c"
  have kl: "k < length s"
    using assms length_takeWhile_le [of ?P s] by simp
  have "takeWhile ?P s ! k \<in> set (takeWhile ?P s)"
    using assms by (rule nth_mem)
  then have "?P (takeWhile ?P s ! k)"
    by (rule set_takeWhileD [THEN conjunct2])
  then have "s ! k \<noteq> c"
    by (simp add: takeWhile_nth [OF assms])
  moreover have "drop k s = s ! k # drop (Suc k) s"
    using kl by (simp add: Cons_nth_drop_Suc)
  ultimately show ?thesis by simp
qed

lemma closing_after_run:
  "match_seq [Chr c] (dropWhile (\<lambda>x. x \<noteq> c) s) =
     (if c \<in> set s then [tl (dropWhile (\<lambda>x. x \<noteq> c) s)] else [])"
proof (cases "dropWhile (\<lambda>x. x \<noteq> c) s")
  case Nil
  then have "\<forall>x \<in> set s. x \<noteq> c" by (simp add: dropWhile_eq_Nil_conv)
  then have "c \<notin> set s" by blast
  then show ?thesis by (simp add: Nil)
next
  case (Cons y ys)
  then have "dropWhile (\<lambda>x. x \<noteq> c) s \<noteq> []" by simp
  from hd_dropWhile [OF this] Cons have y: "y = c" by simp
  have "y \<in> set (dropWhile (\<lambda>x. x \<noteq> c) s)" by (simp add: Cons)
  then have "c \<in> set s"
    unfolding y by (rule set_dropWhileD)
  with Cons y show ?thesis by simp
qed

lemma match_run_closed:
  "match_seq [Plus (\<lambda>x. x \<noteq> c), Chr c] s =
     (if s \<noteq> [] \<and> hd s \<noteq> c \<and> c \<in> set s then [tl (dropWhile (\<lambda>x. x \<noteq> c) s)] else [])"
proof -
  let ?P = "\<lambda>x. x \<noteq> c"
  let ?ks = "rev [1..<length (takeWhile ?P s)]"
  have step: "match_seq [Plus ?P, Chr c] s = concat (map (match_seq [Chr c]) (match_atom (Plus ?P) s))"
    by (simp only: match_seq.simps)
  have inner: "concat (map (match_seq [Chr c]) (map (\<lambda>k. drop k s) ?ks)) = []"
  proof -
    have "match_seq [Chr c] (drop k s) = []" if "k \<in> set ?ks" for k
    proof -
      from that have "k < length (takeWhile ?P s)" by simp
      then show ?thesis by (rule closing_inside_run)
    qed
    then have "\<forall>r \<in> set (map (\<lambda>k. drop k s) ?ks). match_seq [Chr c] r = []"
      by (simp del: match_seq.simps set_rev set_upt)
    then show ?thesis
      by (simp only: concat_eq_Nil_conv set_map) blast
  qed
  show ?thesis
  proof (cases "s \<noteq> [] \<and> hd s \<noteq> c")
    case True
    then have "match_atom (Plus ?P) s = dropWhile ?P s # map (\<lambda>k. drop k s) ?ks"
      unfolding match_plus by simp
    then have "match_seq [Plus ?P, Chr c] s =
        match_seq [Chr c] (dropWhile ?P s) @ concat (map (match_seq [Chr c]) (map (\<lambda>k. drop k s) ?ks))"
      by (simp only: step list.map concat.simps)
    then have "match_seq [Plus ?P, Chr c] s = (if c \<in> set s then [tl (dropWhile ?P s)] else [])"
      by (simp only: inner closing_after_run append_Nil2)
    with True show ?thesis by auto
  next
    case False
    then have "match_atom (Plus ?P) s = []"
      unfolding match_plus by auto
    then have "match_seq [Plus ?P, Chr c] s = []"
      by (simp only: step list.map concat.simps)
    with False show ?thesis by auto
  qed
qed

lemma first_match_tag:
  "first_match tag_pattern s =
     (if s \<noteq> [] \<and> hd s = CHR ''<'' \<and> tl s \<noteq> [] \<and> hd (tl s) \<noteq> CHR ''>'' \<and> CHR ''>'' \<in> set (tl s)
      then Some (tl (dropWhile (\<lambda>x. x \<noteq> CHR ''>'') (tl s)))
      else None)"
proof -
  let ?P = "\<lambda>x. x \<noteq> CHR ''>''"
  have tag: "tag_pattern = [map Chr ''<'' @ [Plus ?P, Chr CHR ''>'']]"
    by (simp add: tag_pattern_def)
  have one: "concat (map (\<lambda>alt. match_seq alt s) [a]) = match_seq a s" for a
    by simp
  have pre: "prefix ''<'' s \<longleftrightarrow> s \<noteq> [] \<and> hd s = CHR ''<''"
    by (cases s) auto
  have dr: "drop (length ''<'') s = tl s"
    by (simp add: drop_Suc)
  have "first_match tag_pattern s =
      (case (if s \<noteq> [] \<and> hd s = CHR ''<'' then match_seq [Plus ?P, Chr CHR ''>''] (tl s) else []) of
         [] \<Rightarrow> None | rest # _ \<Rightarrow> Some rest)"
    unfolding first_match_def tag one match_chars pre dr ..
  then show ?thesis
    unfolding match_run_closed by auto
qed

lemma not_space_letters:
  "\<not> is_space ud CHR ''h''" "\<not> is_space ud CHR ''t''" "\<not> is_space ud CHR ''p''" "\<not> is_space ud CHR ''w''"
  by (simp_all add: is_space_def is_ascii_def)

lemma url_patterns_chars:
  "url_pattern ud = [map Chr ''http'' @ [Plus (\<lambda>c. \<not> is_space ud c)],
                  map Chr ''www'' @ [Plus (\<lambda>c. \<not> is_space ud c)]]"
  by (simp add: url_pattern_def)

lemma dropWhile_prefix:
  assumes "prefix lit s" and "\<forall>x \<in> set lit. P x"
  shows "dropWhile P s = dropWhile P (drop (length lit) s)"
proof -
  from assms(1) obtain r where s: "s = lit @ r" by (auto simp: prefix_def)
  from assms(2) show ?thesis by (simp add: s dropWhile_append)
qed

lemma first_match_url:
  "first_match (url_pattern ud) s =
     (if url_start ud s then Some (dropWhile (\<lambda>x. \<not> is_space ud x) s) else None)"
proof -
  let ?P = "\<lambda>x. \<not> is_space ud x"
  have alt: "match_seq (map Chr lit @ [Plus ?P]) s =
      (if prefix lit s \<and> length lit < length s \<and> \<not> is_space ud (s ! length lit)
       then dropWhile ?P s # map (\<lambda>k. drop k (drop (length lit) s))
              (rev [1..<length (takeWhile ?P (drop (length lit) s))])
       else [])" if lit: "\<forall>x \<in> set lit. \<not> is_space ud x" for lit
  proof -
    let ?r = "drop (length lit) s"
    have seq: "match_seq (map Chr lit @ [Plus ?P]) s =
        (if prefix lit s then match_atom (Plus ?P) ?r else [])"
      by (simp only: match_chars match_single)
    show ?thesis
    proof (cases "prefix lit s")
      case False
      then show ?thesis by (simp only: seq if_False simp_thms)
    next
      case True
      have hd: "?r \<noteq> [] \<and> ?P (hd ?r)
          \<longleftrightarrow> length lit < length s \<and> \<not> is_space ud (s ! length lit)"
        by (auto simp: hd_drop_conv_nth)
      have dw: "dropWhile ?P ?r = dropWhile ?P s"
        using dropWhile_prefix [OF True, of ?P] lit by simp
      show ?thesis
        using True by (simp only: seq match_plus hd dw if_True simp_thms)
    qed
  qed
  have h: "\<forall>x \<in> set ''http''. \<not> is_space ud x" and w: "\<forall>x \<in> set ''www''. \<not> is_space ud x"
    by (simp_all add: not_space_letters)
  have two: "concat (map (\<lambda>alt. match_seq alt s) [a1, a2]) = match_seq a1 s @ match_seq a2 s"
    for a1 a2
    by simp
  have len: "length ''http'' = 4" "length ''www'' = 3"
    by simp_all
  show ?thesis
    unfolding first_match_def url_patterns_chars two alt [OF h] alt [OF w] len url_start_def
    by auto
qed

subsection \<open>The substitutions are the operations of the spec\<close>

lemma re_sub_urls: "re_sub (url_pattern ud) [] s = strip_urls ud s"
proof (induction ud s rule: strip_urls.induct)
  case (1 ud)
  show ?case by (simp add: first_match_url url_start_def)
next
  case (2 ud c cs)
  show ?case
  proof (cases "url_start ud (c # cs)")
    case True
    then have "c = CHR ''h'' \<or> c = CHR ''w''"
      by (auto simp: url_start_def)
    then have c: "\<not> is_space ud c"
      using not_space_letters by auto
    have "length (dropWhile (\<lambda>x. \<not> is_space ud x) cs) < Suc (length cs)"
      using length_dropWhile_le [of "\<lambda>x. \<not> is_space ud x" cs] by simp
    with True c 2(1) show ?thesis
      by (simp add: first_match_url)
  next
    case False
    with 2(2) show ?thesis
      by (simp add: first_match_url)
  qed
qed

lemma re_sub_tags: "re_sub tag_pattern [] s = strip_tags s"
proof (induction s rule: strip_tags.induct)
  case 1
  show ?case by (simp add: first_match_tag)
next
  case (2 c cs)
  let ?tag = "c = CHR ''<'' \<and> cs \<noteq> [] \<and> hd cs \<noteq> CHR ''>'' \<and> CHR ''>'' \<in> set cs"
  show ?case
  proof (cases ?tag)
    case True
    have "length (tl (dropWhile (\<lambda>x. x \<noteq> CHR ''>'') cs)) < Suc (length cs)"
      using length_dropWhile_le [of "\<lambda>x. x \<noteq> CHR ''>''" cs] by simp
    with True 2(1) show ?thesis
      by (simp add: first_match_tag)
  next
    case False
    with 2(2) show ?thesis
      by (auto simp: first_match_tag)
  qed
qed

lemma first_match_special:
  "first_match (special_pattern ud) s = (if s \<noteq> [] \<and> \<not> allowed ud (hd s) then Some (tl s) else None)"
  by (simp add: special_pattern_def first_match_class)

lemma first_match_space:
  "first_match (space_pattern ud) s =
     (if s \<noteq> [] \<and> is_space ud (hd s) then Some (dropWhile (is_space ud) s) else None)"
  by (simp add: space_pattern_def first_match_plus)

lemma re_sub_specials: "re_sub (special_pattern ud) '' '' s = blank_specials ud s"
  by (induction s) (simp_all add: first_match_special blank_specials_def)

lemma re_sub_spaces: "re_sub (space_pattern ud) '' '' s = collapse_whitespace ud s"
proof (induction ud s rule: collapse_whitespace.induct)
  case (1 ud)
  show ?case by (simp add: first_match_space)
next
  case (2 ud c cs)
  show ?case
  proof (cases "is_space ud c")
    case True
    have "length (dropWhile (is_space ud) cs) < Suc (length cs)"
      using length_dropWhile_le [of "is_space ud" cs] by simp
    with True 2(1) show ?thesis
      by (simp add: first_match_space)
  next
    case False
    with 2(2) show ?thesis
      by (simp add: first_match_space)
  qed
qed

subsection \<open>What the result looks like\<close>

lemma allowed_blank: "allowed ud CHR '' ''"
  by (simp add: allowed_def is_space_def is_ascii_def)

lemma blank_specials_allowed: "\<forall>c \<in> set (blank_specials ud s). allowed ud c"
  by (auto simp: blank_specials_def allowed_blank)

lemma collapse_whitespace_chars:
  "x \<in> set (collapse_whitespace ud s) \<Longrightarrow> x = CHR '' '' \<or> (x \<in> set s \<and> \<not> is_space ud x)"
proof (induction ud s arbitrary: x rule: collapse_whitespace.induct)
  case (1 ud)
  then show ?case by simp
next
  case (2 ud c cs)
  show ?case
  proof (cases "is_space ud c")
    case True
    with 2(3) have "x = CHR '' '' \<or> x \<in> set (collapse_whitespace ud (dropWhile (is_space ud) cs))"
      by simp
    then show ?thesis
      using 2(1) [OF True] set_dropWhileD [of x "is_space ud" cs] by auto
  next
    case False
    with 2(3) have "x = c \<or> x \<in> set (collapse_whitespace ud cs)"
      by simp
    then show ?thesis
      using 2(2) [OF False] False by auto
  qed
qed

lemma set_dropWhile_subset: "set (dropWhile P xs) \<subseteq> set xs"
  by (auto dest: set_dropWhileD)

lemma strip_subset: "set (strip ud s) \<subseteq> set s"
proof -
  have "set (strip ud s) = set (dropWhile (is_space ud) (rev (dropWhile (is_space ud) s)))"
    by (simp add: strip_def)
  also have "\<dots> \<subseteq> set (rev (dropWhile (is_space ud) s))"
    by (rule set_dropWhile_subset)
  also have "\<dots> \<subseteq> set s"
    using set_dropWhile_subset [of "is_space ud" s] by simp
  finally show ?thesis .
qed

lemma strip_ends:
  assumes "strip ud s \<noteq> []"
  shows "\<not> is_space ud (hd (strip ud s))" and "\<not> is_space ud (last (strip ud s))"
proof -
  let ?a = "dropWhile (is_space ud) s"
  let ?b = "dropWhile (is_space ud) (rev ?a)"
  from assms have b: "?b \<noteq> []" by (simp add: strip_def)
  have a: "?a \<noteq> []"
  proof
    assume "?a = []"
    then have "?b = []" by (simp only: rev.simps dropWhile.simps)
    with b show False by contradiction
  qed
  have "last (strip ud s) = hd ?b"
    using b by (simp add: strip_def last_rev)
  then show "\<not> is_space ud (last (strip ud s))"
    using hd_dropWhile [OF b] by simp
  have "rev ?a = takeWhile (is_space ud) (rev ?a) @ ?b"
    by simp
  then have "last (rev ?a) = last (takeWhile (is_space ud) (rev ?a) @ ?b)"
    by simp
  also have "\<dots> = last ?b"
    using b by (rule last_appendR)
  finally have "last ?b = hd ?a"
    using a by (simp add: last_rev)
  then have "hd (strip ud s) = hd ?a"
    using b by (simp add: strip_def hd_rev)
  then show "\<not> is_space ud (hd (strip ud s))"
    using hd_dropWhile [OF a] by simp
qed

lemma clean_text_string:
  "clean_text ud (S text) =
     Inr (strip ud (collapse_whitespace ud (blank_specials ud (strip_tags (strip_urls ud text)))))"
  by (simp only: clean_text.simps re_sub_urls re_sub_tags re_sub_specials re_sub_spaces)

lemma cleaned_chars:
  assumes "c \<in> set (strip ud (collapse_whitespace ud (blank_specials ud s)))"
  shows "allowed ud c" and "is_space ud c \<longrightarrow> c = CHR '' ''"
proof -
  from assms have "c \<in> set (collapse_whitespace ud (blank_specials ud s))"
    using strip_subset by blast
  then have c: "c = CHR '' '' \<or> (c \<in> set (blank_specials ud s) \<and> \<not> is_space ud c)"
    by (rule collapse_whitespace_chars)
  show "allowed ud c"
    using c allowed_blank blank_specials_allowed by blast
  show "is_space ud c \<longrightarrow> c = CHR '' ''"
    using c by blast
qed

text \<open>
  Claim C5, as the spec states it, fails: a character outside the whitelist is not removed
  but replaced by a blank, which keeps its neighbours apart.
\<close>

theorem clean_text_counterexample:
  "clean_text latin1 (S ''Tibet/China'') = Inr ''Tibet China'' \<and>
   clean_as_specified latin1 ''Tibet/China'' = ''TibetChina''"
  by code_simp

text \<open>
  Claim C5, amended. A missing value or a number gives the empty string. For a string the
  result is the input with URL-like substrings and HTML tags stripped, every character
  outside the whitelist replaced by a blank, runs of white space collapsed to one blank,
  and white space trimmed at both ends. The result holds whitelisted characters only, its
  only white space is the blank, and it neither starts nor ends with white space. This
  holds whatever the character database says beyond ASCII. The example of the spec comes
  out as stated.
\<close>

theorem clean_text_cleans:
  "clean_text ud NaN = Inr [] \<and>
   clean_text ud (I n) = Inr [] \<and>
   clean_text ud (S text)
     = Inr (strip ud (collapse_whitespace ud (blank_specials ud (strip_tags (strip_urls ud text))))) \<and>
   (\<forall>out. clean_text ud (S text) = Inr out \<longrightarrow>
      (\<forall>c \<in> set out. allowed ud c \<and> (is_space ud c \<longrightarrow> c = CHR '' '')) \<and>
      (out \<noteq> [] \<longrightarrow> \<not> is_space ud (hd out) \<and> \<not> is_space ud (last out))) \<and>
   clean_text ud (S ''Tibet is <b>beautiful</b>. Visit http://x.com now!'')
     = Inr ''Tibet is beautiful. Visit now!''"
proof (intro conjI allI impI ballI)
  show "clean_text ud NaN = Inr []" by simp
  show "clean_text ud (I n) = Inr []" by simp
  show "clean_text ud (S text)
      = Inr (strip ud (collapse_whitespace ud (blank_specials ud (strip_tags (strip_urls ud text)))))"
    by (rule clean_text_string)
  show "clean_text ud (S ''Tibet is <b>beautiful</b>. Visit http://x.com now!'')
      = Inr ''Tibet is beautiful. Visit now!''"
    by code_simp
next
  fix out c
  assume "clean_text ud (S text) = Inr out" and c: "c \<in> set out"
  then have out: "out = strip ud (collapse_whitespace ud (blank_specials ud (strip_tags (strip_urls ud text))))"
    by (simp only: clean_text_string sum.inject)
  show "allowed ud c"
    using c unfolding out by (rule cleaned_chars(1))
  show "is_space ud c \<Longrightarrow> c = CHR '' ''"
    using cleaned_chars(2) c unfolding out by blast
next
  fix out
  assume "clean_text ud (S text) = Inr out" and ne: "out \<noteq> []"
  then have out: "out = strip ud (collapse_whitespace ud (blank_specials ud (strip_tags (strip_urls ud text))))"
    by (simp only: clean_text_string sum.inject)
  show "\<not> is_space ud (hd out)"
    using ne unfolding out by (rule strip_ends(1))
  show "\<not> is_space ud (last out)"
    using ne unfolding out by (rule strip_ends(2))
qed

theorem clean_text_cleans_witness:
  "clean_text latin1 (S (''  caf'' @ [CHR 0xE9] @ ''@b <i>c</i> http://a.b'' @ [CHR 0xA0] @ ''d  ''))
     = Inr (''caf'' @ [CHR 0xE9] @ '' b c d'') \<and>
   allowed latin1 (CHR 0xE9) \<and> allowed latin1 CHR '' '' \<and>
   \<not> is_space latin1 (hd (''caf'' @ [CHR 0xE9] @ '' b c d'')) \<and>
   \<not> is_space latin1 (last (''caf'' @ [CHR 0xE9] @ '' b c d''))"
proof -
  let ?text = "''  caf'' @ [CHR 0xE9] @ ''@b <i>c</i> http://a.b'' @ [CHR 0xA0] @ ''d  ''"
  let ?out = "''caf'' @ [CHR 0xE9] @ '' b c d''"
  have run: "clean_text latin1 (S ?text) = Inr ?out"
    by code_simp
  have ne: "?out \<noteq> []" by simp
  have mem: "CHR 0xE9 \<in> set ?out" "CHR '' '' \<in> set ?out"
    by simp_all
  from clean_text_cleans [of latin1 0 ?text] run ne mem
  show ?thesis by blast
qed

section \<open>Properties of the dataset assembler\<close>

text \<open>
  With a common year the run writes both artifacts, the table without the tokens, and the
  sampler has seeded the generator.
\<close>

lemma main_saves_example:
  "main rotating (\<lambda>col. None) latin1 plain_nltk 7 xinhua_2017 guardian_2017 =
     (42,
      Saved
        \<lparr>columns = [''headline'', ''body_text'', ''clean_text'', ''source'', ''source_category'',
                    ''year'', ''url'', ''token_count''],
         rows = [[S ''Growth'', S (concat (replicate 20 ''yak '')),
                  S (butlast (concat (replicate 20 ''yak ''))), S ''Xinhua'',
                  S ''Chinese State Media'', I 2017, S ''c1'', I 20],
                 [S ''Visit'', S (concat (replicate 20 ''tea '')),
                  S (butlast (concat (replicate 20 ''tea ''))), S ''The Guardian'',
                  S ''Western Media'', I 2017, S ''w2'', I 20]]\<rparr>
        \<lparr>columns = [''url'', ''headline'', ''body_text'', ''year'', ''source'',
                    ''source_category'', ''clean_text'', ''tokens'', ''token_count''],
         rows = [[S ''c1'', S ''Growth'', S (concat (replicate 20 ''yak '')), I 2017,
                  S ''Xinhua'', S ''Chinese State Media'',
                  S (butlast (concat (replicate 20 ''yak ''))), L (replicate 20 ''yak''),
                  I 20],
                 [S ''w2'', S ''Visit'', S (concat (replicate 20 ''tea '')), I 2017,
                  S ''The Guardian'', S ''Western Media'',
                  S (butlast (concat (replicate 20 ''tea ''))), L (replicate 20 ''tea''),
                  I 20]]\<rparr>)"
  by code_simp

text \<open>
  Claim C7. When either of the two loaded categories has no record, the run ends with the
  message that data could not be loaded from one or both sources, before any sampling: the
  generator is in the state it was in when the run began, whatever the generator, and
  neither artifact is written.
\<close>

theorem main_aborts_on_missing_input:
  assumes "len chinese_df = 0 \<or> len western_df = 0"
  shows "main np to_year ud nl g chinese_df western_df =
           (g, Aborted (CHR 0x0A # ''ERROR: Could not load data from one or both sources!'')) \<and>
         artifacts (snd (main np to_year ud nl g chinese_df western_df)) = None"
proof -
  from assms have "main np to_year ud nl g chinese_df western_df =
      (g, Aborted (CHR 0x0A # ''ERROR: Could not load data from one or both sources!''))"
    unfolding main_def by (simp only: if_True)
  then show ?thesis by simp
qed

theorem main_aborts_on_missing_input_witness:
  "len \<lparr>columns = [], rows = []\<rparr> = 0 \<and>
   main rotating (\<lambda>col. None) latin1 plain_nltk 7 \<lparr>columns = [], rows = []\<rparr> guardian_2017 =
     (7, Aborted (CHR 0x0A # ''ERROR: Could not load data from one or both sources!'')) \<and>
   artifacts (snd (main rotating (\<lambda>col. None) latin1 plain_nltk 7
                     \<lparr>columns = [], rows = []\<rparr> guardian_2017)) = None"
proof -
  have empty: "len \<lparr>columns = [], rows = []\<rparr> = 0"
    by (simp add: len_def)
  then have "len \<lparr>columns = [], rows = []\<rparr> = 0 \<or> len guardian_2017 = 0"
    by (rule disjI1)
  then have "main rotating (\<lambda>col. None) latin1 plain_nltk 7 \<lparr>columns = [], rows = []\<rparr> guardian_2017 =
       (7, Aborted (CHR 0x0A # ''ERROR: Could not load data from one or both sources!'')) \<and>
     artifacts (snd (main rotating (\<lambda>col. None) latin1 plain_nltk 7
                       \<lparr>columns = [], rows = []\<rparr> guardian_2017)) = None"
    by (rule main_aborts_on_missing_input)
  with empty show ?thesis
    by (rule conjI)
qed

text \<open>
  Without a year that both categories have, the loop appends no sample and the
  concatenation of the samples raises.
\<close>

lemma sampling_loop_no_common_year:
  assumes "''year'' \<in> set (columns chinese_df)" and "''year'' \<in> set (columns western_df)"
  shows "(\<forall>y \<in> set years.
            filter (\<lambda>r. get (columns chinese_df) r ''year'' = I y) (rows chinese_df) = [] \<or>
            filter (\<lambda>r. get (columns western_df) r ''year'' = I y) (rows western_df) = []) \<Longrightarrow>
         sampling_loop np random_state chinese_df western_df years = Inr []"
proof (induction years)
  case Nil
  show ?case by simp
next
  case (Cons year years)
  let ?cy = "select_rows chinese_df (map (\<lambda>x. x = I year) (column chinese_df ''year''))"
  let ?wy = "select_rows western_df (map (\<lambda>x. x = I year) (column western_df ''year''))"
  have cy: "where_eq chinese_df ''year'' (I year) = Inr ?cy"
    and wy: "where_eq western_df ''year'' (I year) = Inr ?wy"
    using assms by (simp_all add: where_eq_def getitem_def)
  have lc: "len ?cy = length (filter (\<lambda>r. get (columns chinese_df) r ''year'' = I year) (rows chinese_df))"
    and lw: "len ?wy = length (filter (\<lambda>r. get (columns western_df) r ''year'' = I year) (rows western_df))"
    by (simp_all add: len_def select_rows_by_column)
  from Cons.prems have "len ?cy = 0 \<or> len ?wy = 0"
    unfolding lc lw by simp
  then have zero: "\<not> 0 < min (len ?cy) (len ?wy)"
    by auto
  from Cons.prems have rest: "sampling_loop np random_state chinese_df western_df years = Inr []"
    by (intro Cons.IH) simp
  have "sampling_loop np random_state chinese_df western_df (year # years) =
        sampling_loop np random_state chinese_df western_df years"
    by (simp only: sampling_loop.simps cy wy sum.case Let_def zero if_False)
  with rest show ?case by simp
qed

lemma create_balanced_dataset_no_common_year:
  assumes cat: "''source_category'' \<in> set (columns df)"
    and year: "''year'' \<in> set (columns df)"
    and years: "available_years (column df ''year'') = Inr years"
    and none: "\<forall>y \<in> set years. count_records df ''Chinese State Media'' y = 0 \<or>
                               count_records df ''Western Media'' y = 0"
  shows "snd (create_balanced_dataset np g df random_state) = Inl ValueError"
proof -
  let ?c = "select_rows df (map (\<lambda>x. x = S ''Chinese State Media'') (column df ''source_category''))"
  let ?w = "select_rows df (map (\<lambda>x. x = S ''Western Media'') (column df ''source_category''))"
  have c: "where_eq df ''source_category'' (S ''Chinese State Media'') = Inr ?c"
    and w: "where_eq df ''source_category'' (S ''Western Media'') = Inr ?w"
    using cat by (simp_all add: where_eq_def getitem_def)
  note cf = where_eq_Inr [OF c] and wf = where_eq_Inr [OF w]
  have yc: "''year'' \<in> set (columns ?c)" and yw: "''year'' \<in> set (columns ?w)"
    using year by (simp_all only: cf(2) wf(2))
  have "\<forall>y \<in> set years.
          filter (\<lambda>r. get (columns ?c) r ''year'' = I y) (rows ?c) = [] \<or>
          filter (\<lambda>r. get (columns ?w) r ''year'' = I y) (rows ?w) = []"
    using none unfolding cf(2) wf(2) cf(3) wf(3) count_records_def
    by (simp only: filter_filter length_0_conv)
  then have loop: "sampling_loop np random_state ?c ?w years = Inr []"
    by (rule sampling_loop_no_common_year [OF yc yw])
  have col: "getitem df ''year'' = Inr (column df ''year'')"
    using year by (simp add: getitem_def)
  have "snd (create_balanced_dataset np g df random_state) = pd_concat []"
    unfolding create_balanced_dataset_def
    by (simp only: c w col years loop snd_conv sum.case)
  then show ?thesis
    by (simp add: pd_concat_def)
qed

text \<open>
  Claim C8, refuted. Both categories are loaded, one article of twenty words each, the
  Chinese one of 2017 and the Western one of 2018. Neither year has both categories, the
  sampler has no sample to concatenate and the run ends with \<^verbatim>\<open>ValueError\<close>, after the
  sampler seeded the generator and before an artifact is written.
\<close>

theorem main_raises_without_common_year:
  "0 < len xinhua_2017 \<and> 0 < len guardian_2018 \<and>
   main rotating (\<lambda>col. None) latin1 plain_nltk 7 xinhua_2017 guardian_2018 = (42, Raised ValueError) \<and>
   artifacts (snd (main rotating (\<lambda>col. None) latin1 plain_nltk 7 xinhua_2017 guardian_2018)) = None"
  by code_simp

end
